theory Spec2Isabelle
  imports Main "HOL-Library.Word" "HOL-Library.Sublist"
begin

unbundle bit_operations_syntax

section \<open>The persistent map of package ps (internal/ps/map.go)\<close>

text \<open>
  The Go package implements a persistent map from strings to values as a path-copying
  tree of fan-out 8. Nodes are Go structs reached through pointers; one shared node,
  \<open>nilMap\<close>, stands for the empty tree, and its eight children point back at itself.
  The operations test for that node by pointer identity, clone nodes and then assign to
  the fields of the clone. To keep identity, sharing and assignment visible, the model
  has an explicit store: a heap is the list of all nodes allocated so far, a pointer is
  an index into it, and allocation appends. Address 0 is \<open>nilMap\<close>. Go pointers are never
  dangling, so the addresses stored in a heap are meant to be below its length; the
  well-formedness predicates further down say so. \<open>String\<close> (debug output) and the unused
  \<open>subtreeCount\<close> are left out.
\<close>

subsection \<open>Data\<close>

type_synonym addr = nat

text \<open>Go's \<open>Any\<close> (\<open>interface{}\<close>): \<open>None\<close> is the nil interface value.\<close>

type_synonym 'v any = "'v option"

text \<open>
  \<open>type tree struct\<close>. The array \<open>[childCount]*tree\<close> is a list of addresses; its
  length 8 is part of the well-formedness of a heap. \<open>count\<close> is a Go \<open>int\<close>; it never
  exceeds the number of allocated nodes, so it is modelled without wrap-around.
\<close>

record 'v tree =
  count :: int
  hash :: "64 word"
  key :: string
  val :: "'v any"
  children :: "addr list"

type_synonym 'v heap = "'v tree list"

text \<open>The run-time panics the package can raise.\<close>

datatype panic =
  NotLeafNoChildren   \<comment> \<open>the explicit panic of \<open>deleteLeftmost\<close>\<close>
| IndexOutOfRange     \<comment> \<open>an array or slice index outside its bounds\<close>
| MakeSliceLen        \<comment> \<open>\<open>make\<close> with a negative length\<close>

definition childCount :: nat where
  "childCount = 8"

definition shiftSize :: nat where
  "shiftSize = 3"

definition nilMap :: addr where
  "nilMap = 0"

text \<open>The node \<open>nilMap\<close> points to once \<open>init\<close> has run: the zero struct, every child itself.\<close>

definition nilTree :: "'v tree" where
  "nilTree = \<lparr>count = 0, hash = 0, key = [], val = None,
              children = replicate childCount nilMap\<rparr>"

definition init_heap :: "'v heap" where
  "init_heap = [nilTree]"

definition NewMap :: addr where
  "NewMap = nilMap"

definition IsNil :: "addr \<Rightarrow> bool" where
  "IsNil t = (t = nilMap)"

text \<open>\<open>clone\<close> allocates a copy of the node (the children array is copied with it).\<close>

definition clone :: "'v heap \<Rightarrow> addr \<Rightarrow> 'v heap \<times> addr" where
  "clone h t = (h @ [h ! t], length h)"

definition Size :: "'v heap \<Rightarrow> addr \<Rightarrow> int" where
  "Size h t = count (h ! t)"

definition isLeaf :: "'v heap \<Rightarrow> addr \<Rightarrow> bool" where
  "isLeaf h t = (Size h t = 1)"

text \<open>The assignment \<open>m.children[i] = c\<close>.\<close>

definition setChild :: "'v heap \<Rightarrow> addr \<Rightarrow> nat \<Rightarrow> addr \<Rightarrow> 'v heap" where
  "setChild h m i c = h[m := (h ! m)\<lparr>children := (children (h ! m))[i := c]\<rparr>]"

definition recalculateCount :: "'v heap \<Rightarrow> addr \<Rightarrow> 'v heap" where
  "recalculateCount h m =
     (let count' = fold (\<lambda>t c. c + Size h t) (children (h ! m)) 0
      in h[m := (h ! m)\<lparr>count := count' + 1\<rparr>])"

subsection \<open>Hashing\<close>

text \<open>
  \<open>for _, codepoint := range key\<close> decodes the bytes of the string as UTF-8. By the Go
  language specification an invalid sequence yields U+FFFD and the iteration advances
  by one byte. \<open>decoderune\<close> returns the code point and the number of bytes it took.
\<close>

definition runeError :: "32 word" where
  "runeError = 0xFFFD"

definition byte :: "char \<Rightarrow> 8 word" where
  "byte c = of_char c"

definition cont :: "char \<Rightarrow> bool" where
  "cont c = (0x80 \<le> byte c \<and> byte c \<le> 0xBF)"

definition low6 :: "char \<Rightarrow> 32 word" where
  "low6 c = ucast (byte c AND 0x3F)"

fun decoderune :: "string \<Rightarrow> 32 word \<times> nat" where
  "decoderune [] = (runeError, 1)"
| "decoderune (c0 # s) =
     (let b0 = byte c0 in
      if b0 < 0x80 then (ucast b0, 1)
      else if 0xC0 \<le> b0 \<and> b0 < 0xE0 then
        (case s of
           c1 # _ \<Rightarrow>
             if cont c1 then
               (let r = push_bit 6 (ucast (b0 AND 0x1F)) OR low6 c1
                in if 0x7F < r then (r, 2) else (runeError, 1))
             else (runeError, 1)
         | _ \<Rightarrow> (runeError, 1))
      else if 0xE0 \<le> b0 \<and> b0 < 0xF0 then
        (case s of
           c1 # c2 # _ \<Rightarrow>
             if cont c1 \<and> cont c2 then
               (let r = push_bit 12 (ucast (b0 AND 0x0F)) OR push_bit 6 (low6 c1) OR low6 c2
                in if 0x7FF < r \<and> \<not> (0xD800 \<le> r \<and> r \<le> 0xDFFF) then (r, 3)
                   else (runeError, 1))
             else (runeError, 1)
         | _ \<Rightarrow> (runeError, 1))
      else if 0xF0 \<le> b0 \<and> b0 < 0xF8 then
        (case s of
           c1 # c2 # c3 # _ \<Rightarrow>
             if cont c1 \<and> cont c2 \<and> cont c3 then
               (let r = push_bit 18 (ucast (b0 AND 0x07)) OR push_bit 12 (low6 c1)
                          OR push_bit 6 (low6 c2) OR low6 c3
                in if 0xFFFF < r \<and> r \<le> 0x10FFFF then (r, 4) else (runeError, 1))
             else (runeError, 1)
         | _ \<Rightarrow> (runeError, 1))
      else (runeError, 1))"

lemma decoderune_width: "0 < snd (decoderune s)"
  by (cases s) (auto simp: Let_def split: list.splits)

function runes :: "string \<Rightarrow> 32 word list" where
  "runes [] = []"
| "runes (c # s) = fst (decoderune (c # s)) # runes (drop (snd (decoderune (c # s))) (c # s))"
  by pat_completeness auto
termination
proof (relation "measure length")
  show "wf (measure length)" by simp
next
  fix c :: char and s :: string
  have "0 < snd (decoderune (c # s))" by (rule decoderune_width)
  then show "(drop (snd (decoderune (c # s))) (c # s), c # s) \<in> measure length"
    by simp
qed

definition offset64 :: "64 word" where
  "offset64 = 14695981039346656037"

definition prime64 :: "64 word" where
  "prime64 = 1099511628211"

text \<open>\<open>uint64(codepoint)\<close> converts the signed 32-bit rune, hence \<open>scast\<close>.\<close>

definition hashKey :: "string \<Rightarrow> 64 word" where
  "hashKey k = foldl (\<lambda>h codepoint. (h XOR scast codepoint) * prime64) offset64 (runes k)"

subsection \<open>Lookup\<close>

partial_function (option) lookupLowLevel ::
  "'v heap \<Rightarrow> addr \<Rightarrow> 64 word \<Rightarrow> 64 word \<Rightarrow> ('v any \<times> bool) option" where
  "lookupLowLevel h self partialHash hash' =
     (if IsNil self then Some (None, False)
      else if hash' \<noteq> hash (h ! self) then
        (let i = unat (partialHash mod of_nat childCount)
         in lookupLowLevel h (children (h ! self) ! i) (drop_bit shiftSize partialHash) hash')
      else Some (val (h ! self), True))"

declare lookupLowLevel.simps [code]

definition Lookup :: "'v heap \<Rightarrow> addr \<Rightarrow> string \<Rightarrow> ('v any \<times> bool) option" where
  "Lookup h t k = lookupLowLevel h t (hashKey k) (hashKey k)"

subsection \<open>Set\<close>

partial_function (option) setLowLevel ::
  "'v heap \<Rightarrow> addr \<Rightarrow> 64 word \<Rightarrow> 64 word \<Rightarrow> string \<Rightarrow> 'v any \<Rightarrow> ('v heap \<times> addr) option" where
  "setLowLevel h self partialHash hash' key' value' =
     (if IsNil self then
        (let (h1, m) = clone h self;
             h2 = h1[m := (h1 ! m)\<lparr>count := 1, hash := hash', key := key', val := value'\<rparr>]
         in Some (h2, m))
      else if hash' \<noteq> hash (h ! self) then
        (let (h1, m) = clone h self;
             i = unat (partialHash mod of_nat childCount)
         in Option.bind
              (setLowLevel h1 (children (h1 ! self) ! i) (drop_bit shiftSize partialHash)
                 hash' key' value')
              (\<lambda>(h2, c).
                 let h3 = setChild h2 m i c;
                     h4 = recalculateCount h3 m
                 in Some (h4, m)))
      else
        (let (h1, m) = clone h self;
             h2 = h1[m := (h1 ! m)\<lparr>val := value'\<rparr>]
         in Some (h2, m)))"

declare setLowLevel.simps [code]

definition Set :: "'v heap \<Rightarrow> addr \<Rightarrow> string \<Rightarrow> 'v any \<Rightarrow> ('v heap \<times> addr) option" where
  "Set h t k v = setLowLevel h t (hashKey k) (hashKey k) k v"

subsection \<open>Delete\<close>

text \<open>
  The loop of \<open>deleteLeftmost\<close> returns from its first iteration whose child is not
  \<open>nilMap\<close>; \<open>firstChild\<close> is the index of that iteration, if there is one.
\<close>

definition firstChild :: "addr list \<Rightarrow> nat option" where
  "firstChild cs = List.find (\<lambda>i. cs ! i \<noteq> nilMap) [0..<length cs]"

partial_function (option) deleteLeftmost ::
  "'v heap \<Rightarrow> addr \<Rightarrow> (panic + 'v heap \<times> addr \<times> addr) option" where
  "deleteLeftmost h t =
     (if isLeaf h t then Some (Inr (h, t, nilMap))
      else
        (case firstChild (children (h ! t)) of
           None \<Rightarrow> Some (Inl NotLeafNoChildren)
         | Some i \<Rightarrow>
             Option.bind (deleteLeftmost h (children (h ! t) ! i))
               (\<lambda>r. case r of
                  Inl e \<Rightarrow> Some (Inl e)
                | Inr (h1, deleted, child) \<Rightarrow>
                    (let (h2, newMap) = clone h1 t;
                         h3 = setChild h2 newMap i child;
                         h4 = recalculateCount h3 newMap
                     in Some (Inr (h4, deleted, newMap))))))"

declare deleteLeftmost.simps [code]

text \<open>
  The loop that looks for the child to take the replacement from: \<open>i\<close> and \<open>size\<close>
  start at \<open>-1\<close>, and a child wins only with a strictly larger \<open>Size()\<close>.
\<close>

definition findLargest :: "'v heap \<Rightarrow> addr list \<Rightarrow> int \<times> int" where
  "findLargest h cs =
     fold (\<lambda>j (i, size'). if Size h (cs ! j) > size' then (int j, Size h (cs ! j)) else (i, size'))
       [0..<length cs] (- 1, - 1)"

partial_function (option) deleteLowLevel ::
  "'v heap \<Rightarrow> addr \<Rightarrow> 64 word \<Rightarrow> 64 word \<Rightarrow> (panic + 'v heap \<times> addr \<times> bool) option" where
  "deleteLowLevel h self partialHash hash' =
     (if IsNil self then Some (Inr (h, self, False))
      else if hash' \<noteq> hash (h ! self) then
        (let i = unat (partialHash mod of_nat childCount)
         in Option.bind
              (deleteLowLevel h (children (h ! self) ! i) (drop_bit shiftSize partialHash) hash')
              (\<lambda>r. case r of
                 Inl e \<Rightarrow> Some (Inl e)
               | Inr (h1, child, found) \<Rightarrow>
                   if \<not> found then Some (Inr (h1, self, False))
                   else
                     (let (h2, newMap) = clone h1 self;
                          h3 = setChild h2 newMap i child;
                          h4 = recalculateCount h3 newMap
                      in Some (Inr (h4, newMap, True)))))
      else if isLeaf h self then Some (Inr (h, nilMap, True))
      else
        (let (i, size') = findLargest h (children (h ! self))
         in if i < 0 then Some (Inl IndexOutOfRange)
            else
              (case deleteLeftmost h (children (h ! self) ! nat i) of
                 None \<Rightarrow> None
               | Some (Inl e) \<Rightarrow> Some (Inl e)
               | Some (Inr (h1, replacement, child)) \<Rightarrow>
                   (let (h2, newMap) = clone h1 replacement;
                        h3 = fold (\<lambda>j hh. if int j = i then setChild hh newMap j child
                                          else setChild hh newMap j (children (hh ! self) ! j))
                               [0..<childCount] h2;
                        h4 = recalculateCount h3 newMap
                    in Some (Inr (h4, newMap, True))))))"

declare deleteLowLevel.simps [code]

definition Delete :: "'v heap \<Rightarrow> addr \<Rightarrow> string \<Rightarrow> (panic + 'v heap \<times> addr) option" where
  "Delete h t k =
     (case deleteLowLevel h t (hashKey k) (hashKey k) of
        None \<Rightarrow> None
      | Some (Inl e) \<Rightarrow> Some (Inl e)
      | Some (Inr (h1, newMap, found)) \<Rightarrow> Some (Inr (h1, newMap)))"

subsection \<open>ForEach and Keys\<close>

text \<open>
  The callback of \<open>ForEach\<close> is a Go closure; its effect is a function on the state
  \<open>'s\<close> it closes over, which may panic. \<open>forRange\<close> is the loop over the children.
\<close>

primrec forRange ::
  "('a \<Rightarrow> 's \<Rightarrow> (panic + 's) option) \<Rightarrow> 'a list \<Rightarrow> 's \<Rightarrow> (panic + 's) option" where
  "forRange body [] s = Some (Inr s)"
| "forRange body (x # xs) s =
     Option.bind (body x s) (\<lambda>r. case r of Inl e \<Rightarrow> Some (Inl e) | Inr s' \<Rightarrow> forRange body xs s')"

lemma forRange_mono [partial_function_mono]:
  assumes "\<And>x s. mono_option (\<lambda>f. B f x s)"
  shows "mono_option (\<lambda>f. forRange (B f) xs s)"
proof (induction xs arbitrary: s)
  case Nil
  show ?case by (simp add: option.const_mono)
next
  case (Cons x xs)
  have "mono_option (\<lambda>f. case r of Inl e \<Rightarrow> Some (Inl e) | Inr s' \<Rightarrow> forRange (B f) xs s')" for r
    by (cases r) (simp_all add: option.const_mono Cons)
  then show ?case
    unfolding forRange.simps by (rule bind_mono [OF assms])
qed

partial_function (option) ForEach ::
  "'v heap \<Rightarrow> addr \<Rightarrow> (string \<Rightarrow> 'v any \<Rightarrow> 's \<Rightarrow> panic + 's) \<Rightarrow> 's \<Rightarrow> (panic + 's) option" where
  "ForEach h t f s =
     (if IsNil t then Some (Inr s)
      else
        (case f (key (h ! t)) (val (h ! t)) s of
           Inl e \<Rightarrow> Some (Inl e)
         | Inr s1 \<Rightarrow>
             forRange (\<lambda>c s2. if c \<noteq> nilMap then ForEach h c f s2 else Some (Inr s2))
               (children (h ! t)) s1))"

declare ForEach.simps [code]

text \<open>The closure of \<open>Keys\<close>: \<open>keys[i] = k; i++\<close> on the slice and the counter.\<close>

definition storeKey :: "string \<Rightarrow> 'v any \<Rightarrow> string list \<times> nat \<Rightarrow> panic + string list \<times> nat" where
  "storeKey k v s =
     (case s of (keys, i) \<Rightarrow>
        if i < length keys then Inr (keys[i := k], i + 1) else Inl IndexOutOfRange)"

definition Keys :: "'v heap \<Rightarrow> addr \<Rightarrow> (panic + string list) option" where
  "Keys h t =
     (if Size h t < 0 then Some (Inl MakeSliceLen)
      else
        (case ForEach h t storeKey (replicate (nat (Size h t)) [], 0) of
           None \<Rightarrow> None
         | Some (Inl e) \<Rightarrow> Some (Inl e)
         | Some (Inr (keys, i)) \<Rightarrow> Some (Inr keys)))"

section \<open>The tree a handle denotes\<close>

text \<open>
  The proofs go through the tree of entries that a handle stands for. \<open>repr S h t a\<close>
  says that address \<open>a\<close> of heap \<open>h\<close> holds the tree \<open>t\<close>: \<open>ANil\<close> is the sentinel, and
  an \<open>ANode\<close> carries the fields of a node and the trees of its eight children. \<open>S\<close>
  bounds the addresses of the nodes used, so that a write to an address outside \<open>S\<close>
  leaves the relation intact. The functions with the suffix \<open>_t\<close> are the operations of
  the package once more, on these trees; each heap operation is shown to compute the
  tree its \<open>_t\<close> counterpart computes, in an extension of the heap it started from, and to
  terminate.
\<close>

datatype 'v atree = ANil | ANode int "64 word" string "'v any" "'v atree list"

fun cnt :: "'v atree \<Rightarrow> int" where
  "cnt ANil = 0"
| "cnt (ANode c hs k v ts) = c"

lemma size_nth_atree [termination_simp]:
  "i < length ts \<Longrightarrow> size (ts ! i) < Suc (m + size_list size ts)"
proof -
  assume "i < length ts"
  then have "size (ts ! i) \<le> size_list size ts"
    by (metis nth_mem size_list_estimation' order_refl)
  then show ?thesis by simp
qed

fun lookup_t :: "'v atree \<Rightarrow> 64 word \<Rightarrow> 64 word \<Rightarrow> 'v any \<times> bool" where
  "lookup_t ANil ph H = (None, False)"
| "lookup_t (ANode c hs k v ts) ph H =
     (if H \<noteq> hs then
        (let i = unat (ph mod 8)
         in if i < length ts then lookup_t (ts ! i) (drop_bit 3 ph) H else (None, False))
      else (v, True))"

fun repr :: "addr set \<Rightarrow> 'v heap \<Rightarrow> 'v atree \<Rightarrow> addr \<Rightarrow> bool" where
  "repr S h ANil a = (a = nilMap)"
| "repr S h (ANode c hs k v ts) a =
     (a \<noteq> nilMap \<and> a \<in> S \<and> a < length h \<and>
      count (h ! a) = c \<and> hash (h ! a) = hs \<and> key (h ! a) = k \<and> val (h ! a) = v \<and>
      length ts = childCount \<and> list_all2 (repr S h) ts (children (h ! a)))"

text \<open>The part of the heap the package sets up before any call: the sentinel at \<open>nilMap\<close>.\<close>

definition wf_heap :: "'v heap \<Rightarrow> bool" where
  "wf_heap h = (0 < length h \<and> h ! nilMap = nilTree)"

lemma digit_less: "unat ((ph :: 64 word) mod of_nat childCount) < childCount"
  by (simp add: childCount_def unat_mod)

lemma repr_mono: "repr S h t a \<Longrightarrow> S \<subseteq> S' \<Longrightarrow> repr S' h t a"
proof (induction t arbitrary: a)
  case ANil
  then show ?case by simp
next
  case (ANode c hs k v ts)
  have "list_all2 (repr S' h) ts (children (h ! a))"
    using ANode.prems ANode.IH
    by (auto simp: list_all2_conv_all_nth)
  with ANode.prems show ?case by auto
qed

lemma repr_frame:
  "repr S h t a \<Longrightarrow> (\<And>x. x \<in> S \<Longrightarrow> x < length h \<Longrightarrow> x < length h' \<and> h' ! x = h ! x)
     \<Longrightarrow> repr S h' t a"
proof (induction t arbitrary: a)
  case ANil
  then show ?case by simp
next
  case (ANode c hs k v ts)
  from ANode.prems(1) have a: "a \<in> S" "a < length h" by auto
  with ANode.prems(2) have eq: "a < length h'" "h' ! a = h ! a" by auto
  have "list_all2 (repr S h') ts (children (h ! a))"
    using ANode.prems ANode.IH
    by (auto simp: list_all2_conv_all_nth)
  with ANode.prems(1) eq show ?case by auto
qed

lemma reprs_frame:
  "list_all2 (repr S h) ts cs \<Longrightarrow>
     (\<And>x. x \<in> S \<Longrightarrow> x < length h \<Longrightarrow> x < length h' \<and> h' ! x = h ! x)
     \<Longrightarrow> list_all2 (repr S h') ts cs"
  by (erule list_all2_mono) (rule repr_frame)

lemma reprs_mono:
  "list_all2 (repr S h) ts cs \<Longrightarrow> S \<subseteq> S' \<Longrightarrow> list_all2 (repr S' h) ts cs"
  by (erule list_all2_mono) (rule repr_mono)

lemma repr_Size: "wf_heap h \<Longrightarrow> repr S h t a \<Longrightarrow> Size h a = cnt t"
  by (cases t) (auto simp: Size_def wf_heap_def nilTree_def)

lemma lookup_refine:
  "repr S h t a \<Longrightarrow> lookupLowLevel h a ph H = Some (lookup_t t ph H)"
proof (induction t arbitrary: a ph)
  case ANil
  then show ?case by (simp add: lookupLowLevel.simps IsNil_def)
next
  case (ANode c hs k v ts)
  let ?i = "unat (ph mod of_nat childCount)"
  have i: "?i < length ts" using ANode.prems digit_less by auto
  have notnil: "\<not> IsNil a" using ANode.prems by (simp add: IsNil_def)
  show ?case
  proof (cases "H = hs")
    case True
    with ANode.prems notnil show ?thesis
      by (subst lookupLowLevel.simps) simp
  next
    case False
    from ANode.prems i have "repr S h (ts ! ?i) (children (h ! a) ! ?i)"
      by (auto simp: list_all2_conv_all_nth)
    then have "lookupLowLevel h (children (h ! a) ! ?i) (drop_bit shiftSize ph) H
                 = Some (lookup_t (ts ! ?i) (drop_bit shiftSize ph) H)"
      using ANode.IH i by simp
    with False ANode.prems notnil i show ?thesis
      by (subst lookupLowLevel.simps) (simp add: childCount_def shiftSize_def)
  qed
qed


fun set_t :: "'v atree \<Rightarrow> 64 word \<Rightarrow> 64 word \<Rightarrow> string \<Rightarrow> 'v any \<Rightarrow> 'v atree" where
  "set_t ANil ph H k v = ANode 1 H k v (replicate childCount ANil)"
| "set_t (ANode c hs k0 v0 ts) ph H k v =
     (if H \<noteq> hs then
        (let i = unat (ph mod 8)
         in if i < length ts then
              (let ts' = ts[i := set_t (ts ! i) (drop_bit 3 ph) H k v]
               in ANode (sum_list (map cnt ts') + 1) hs k0 v0 ts')
            else ANode c hs k0 v0 ts)
      else ANode c hs k0 v ts)"

lemma wf_heap_append: "wf_heap h \<Longrightarrow> wf_heap (h @ ys)"
  by (simp add: wf_heap_def nilMap_def nth_append)

lemma wf_heap_upd: "wf_heap h \<Longrightarrow> m \<noteq> nilMap \<Longrightarrow> wf_heap (h[m := x])"
  by (simp add: wf_heap_def)

lemma wf_heap_prefix: "wf_heap h \<Longrightarrow> prefix h h' \<Longrightarrow> wf_heap h'"
  by (auto simp: prefix_def wf_heap_append)

lemma prefix_upd: "prefix h h2 \<Longrightarrow> length h \<le> m \<Longrightarrow> prefix h (h2[m := x])"
  by (auto simp: prefix_def list_update_append)

lemma prefix_nth: "prefix h h' \<Longrightarrow> x < length h \<Longrightarrow> h' ! x = h ! x"
  by (auto simp: prefix_def nth_append)

lemma fold_Size:
  "list_all2 (repr S h) ts cs \<Longrightarrow> wf_heap h \<Longrightarrow>
     fold (\<lambda>t c. c + Size h t) cs acc = acc + sum_list (map cnt ts)"
proof (induction ts cs arbitrary: acc rule: list_all2_induct)
  case Nil
  then show ?case by simp
next
  case (Cons t ts c cs)
  then show ?case by (simp add: repr_Size)
qed

lemma recalculateCount_repr:
  assumes "wf_heap h" "m < length h" "m \<noteq> nilMap" "m \<notin> S"
    and "list_all2 (repr S h) ts (children (h ! m))" "length ts = childCount"
  shows "repr (insert m S) (recalculateCount h m)
           (ANode (sum_list (map cnt ts) + 1) (hash (h ! m)) (key (h ! m)) (val (h ! m)) ts) m"
proof -
  let ?h' = "recalculateCount h m"
  have cnt: "fold (\<lambda>t c. c + Size h t) (children (h ! m)) 0 = sum_list (map cnt ts)"
    using fold_Size [OF assms(5) assms(1), of 0] by simp
  have node: "?h' ! m = (h ! m)\<lparr>count := sum_list (map cnt ts) + 1\<rparr>"
    using assms(2) by (simp add: recalculateCount_def cnt)
  have other: "x < length ?h' \<and> ?h' ! x = h ! x" if "x \<in> S" "x < length h" for x
  proof -
    from that assms(4) have "x \<noteq> m" by auto
    with that show ?thesis by (simp add: recalculateCount_def)
  qed
  have "list_all2 (repr S ?h') ts (children (h ! m))"
    using assms(5) other by (rule reprs_frame)
  then have "list_all2 (repr (insert m S) ?h') ts (children (h ! m))"
    by (rule reprs_mono) auto
  moreover have "length ?h' = length h" by (simp add: recalculateCount_def)
  ultimately show ?thesis
    using assms(2,3,6) node by simp
qed

lemma recalculateCount_other: "x \<noteq> m \<Longrightarrow> recalculateCount h m ! x = h ! x"
  by (simp add: recalculateCount_def)

lemma recalculateCount_length: "length (recalculateCount h m) = length h"
  by (simp add: recalculateCount_def)

lemma setChild_other: "x \<noteq> m \<Longrightarrow> setChild h m i c ! x = h ! x"
  by (simp add: setChild_def)

lemma setChild_length: "length (setChild h m i c) = length h"
  by (simp add: setChild_def)

lemma setChild_self:
  "m < length h \<Longrightarrow> setChild h m i c ! m = (h ! m)\<lparr>children := (children (h ! m))[i := c]\<rparr>"
  by (simp add: setChild_def)

text \<open>The path-copy step shared by Set and Delete: a fresh node \<open>m\<close> gets child \<open>i\<close> replaced
  and its count recomputed.\<close>

lemma path_copy_repr:
  assumes wf: "wf_heap h2" and m: "m < length h2" "m \<noteq> nilMap" "m \<notin> S"
    and cs: "list_all2 (repr S h2) ts (children (h2 ! m))" "length ts = childCount"
    and c: "repr S h2 t' c" and i: "i < childCount"
  shows "repr (insert m S) (recalculateCount (setChild h2 m i c) m)
           (ANode (sum_list (map cnt (ts[i := t'])) + 1)
              (hash (h2 ! m)) (key (h2 ! m)) (val (h2 ! m)) (ts[i := t'])) m"
proof -
  let ?h3 = "setChild h2 m i c"
  have fr: "x < length ?h3 \<and> ?h3 ! x = h2 ! x" if "x \<in> S" "x < length h2" for x
  proof -
    from that m have "x \<noteq> m" by auto
    with that show ?thesis by (simp add: setChild_def)
  qed
  have "list_all2 (repr S h2) (ts[i := t']) ((children (h2 ! m))[i := c])"
    using cs c by (simp add: list_all2_update_cong)
  then have "list_all2 (repr S ?h3) (ts[i := t']) ((children (h2 ! m))[i := c])"
    using fr by (rule reprs_frame)
  then have 1: "list_all2 (repr S ?h3) (ts[i := t']) (children (?h3 ! m))"
    using m by (simp add: setChild_self)
  have 2: "wf_heap ?h3" using wf m by (simp add: setChild_def wf_heap_upd)
  have 3: "m < length ?h3" using m by (simp add: setChild_length)
  have "repr (insert m S) (recalculateCount ?h3 m)
           (ANode (sum_list (map cnt (ts[i := t'])) + 1)
              (hash (?h3 ! m)) (key (?h3 ! m)) (val (?h3 ! m)) (ts[i := t'])) m"
    by (rule recalculateCount_repr [OF 2 3 m(2) m(3) 1]) (simp add: cs)
  then show ?thesis using m by (simp add: setChild_self)
qed


lemma reprs_nil: "list_all2 (repr S h) (replicate n ANil) (replicate n nilMap)"
  by (simp add: list_all2_conv_all_nth)

lemma reprs_nth:
  "list_all2 (repr S h) ts cs \<Longrightarrow> i < length ts \<Longrightarrow> repr S h (ts ! i) (cs ! i)"
  by (simp add: list_all2_conv_all_nth)

lemma set_refine:
  assumes "repr S h t a" "wf_heap h" "S \<subseteq> {..<length h}"
  shows "\<exists>h'. setLowLevel h a ph H k v = Some (h', length h) \<and> prefix h h' \<and>
           length h < length h' \<and>
           repr (S \<union> {length h..<length h'}) h' (set_t t ph H k v) (length h)"
  using assms
proof (induction t arbitrary: S h a ph)
  case ANil
  let ?m = "length h"
  let ?n = "\<lparr>count = 1, hash = H, key = k, val = v, children = replicate childCount nilMap\<rparr> :: 'a tree"
  let ?h' = "h @ [?n]"
  from ANil have a: "a = nilMap" by simp
  have n: "h ! nilMap = nilTree" and pos: "0 < length h" using ANil.prems by (auto simp: wf_heap_def)
  have "setLowLevel h a ph H k v = Some (?h', ?m)"
    by (subst setLowLevel.simps) (simp add: a IsNil_def clone_def n nilTree_def)
  moreover have "repr (S \<union> {?m..<length ?h'}) ?h' (set_t ANil ph H k v) ?m"
  proof -
    have "?m \<noteq> nilMap" using pos by (simp add: nilMap_def)
    then show ?thesis by (simp add: reprs_nil)
  qed
  ultimately show ?case using a by auto
next
  case (ANode c hs k0 v0 ts)
  let ?m = "length h"
  let ?i = "unat (ph mod of_nat childCount)"
  have i: "?i < childCount" by (rule digit_less)
  from ANode.prems have a: "a \<noteq> nilMap" "a \<in> S" "a < length h"
    and node: "count (h ! a) = c" "hash (h ! a) = hs" "key (h ! a) = k0" "val (h ! a) = v0"
    and len: "length ts = childCount"
    and cs: "list_all2 (repr S h) ts (children (h ! a))"
    by auto
  have pos: "?m \<noteq> nilMap" using ANode.prems by (auto simp: wf_heap_def nilMap_def)
  have mS: "?m \<notin> S" using ANode.prems by auto
  show ?case
  proof (cases "H = hs")
    case True
    let ?h' = "h @ [(h ! a)\<lparr>val := v\<rparr>]"
    have "setLowLevel h a ph H k v = Some (?h', ?m)"
      using a node True by (subst setLowLevel.simps) (simp add: IsNil_def clone_def)
    moreover have "list_all2 (repr S ?h') ts (children (h ! a))"
      using cs by (rule reprs_frame) (simp add: nth_append)
    then have "list_all2 (repr (S \<union> {?m..<length ?h'}) ?h') ts (children (h ! a))"
      by (rule reprs_mono) auto
    then have "repr (S \<union> {?m..<length ?h'}) ?h' (set_t (ANode c hs k0 v0 ts) ph H k v) ?m"
      using True node len pos by simp
    ultimately show ?thesis by auto
  next
    case False
    let ?h1 = "h @ [h ! a]"
    let ?ci = "children (h ! a) ! ?i"
    let ?ph' = "drop_bit shiftSize ph"
    have ti: "ts ! ?i \<in> set ts" using i len by simp
    have "list_all2 (repr S ?h1) ts (children (h ! a))"
      using cs by (rule reprs_frame) (simp add: nth_append)
    then have cs1: "list_all2 (repr S ?h1) ts (children (?h1 ! ?m))" by simp
    then have r1: "repr S ?h1 (ts ! ?i) ?ci" using i len by (simp add: reprs_nth)
    have wf1: "wf_heap ?h1" using ANode.prems by (simp add: wf_heap_append)
    have S1: "S \<subseteq> {..<length ?h1}" using ANode.prems by auto
    from ANode.IH [OF ti r1 wf1 S1, of ?ph']
    obtain h2 where rec: "setLowLevel ?h1 ?ci ?ph' H k v = Some (h2, length ?h1)"
      and pre: "prefix ?h1 h2" and lt: "length ?h1 < length h2"
      and r2: "repr (S \<union> {length ?h1..<length h2}) h2 (set_t (ts ! ?i) ?ph' H k v) (length ?h1)"
      by blast
    let ?S2 = "S \<union> {length ?h1..<length h2}"
    let ?h4 = "recalculateCount (setChild h2 ?m ?i (length ?h1)) ?m"
    have m2: "?m < length h2" using lt by simp
    have hm: "h2 ! ?m = h ! a" using prefix_nth [OF pre, of ?m] by simp
    have old: "h2 ! x = h ! x" if "x < length h" for x
      using prefix_nth [OF pre, of x] that by (simp add: nth_append)
    have wf2: "wf_heap h2" using wf1 pre by (rule wf_heap_prefix)
    have "list_all2 (repr S h2) ts (children (?h1 ! ?m))"
      using cs1 by (rule reprs_frame) (use lt prefix_nth [OF pre] in auto)
    then have "list_all2 (repr S h2) ts (children (h2 ! ?m))"
      by (simp add: hm)
    then have cs2: "list_all2 (repr ?S2 h2) ts (children (h2 ! ?m))"
      by (rule reprs_mono) simp
    have mS2: "?m \<notin> ?S2" using mS by simp
    have rr: "repr (insert ?m ?S2) ?h4
           (ANode (sum_list (map cnt (ts[?i := set_t (ts ! ?i) ?ph' H k v])) + 1)
              (hash (h2 ! ?m)) (key (h2 ! ?m)) (val (h2 ! ?m))
              (ts[?i := set_t (ts ! ?i) ?ph' H k v])) ?m"
      by (rule path_copy_repr [OF wf2 m2 pos mS2 cs2 len r2 i])
    have len4: "length ?h4 = length h2"
      by (simp add: recalculateCount_length setChild_length)
    have eqS: "insert ?m ?S2 = S \<union> {?m..<length ?h4}" using lt len4 by auto
    have "setLowLevel h a ph H k v = Some (?h4, ?m)"
      using a node False rec
      by (subst setLowLevel.simps) (simp add: IsNil_def clone_def nth_append)
    moreover have "prefix h ?h4"
    proof -
      have "prefix h h2" using pre by (auto simp: prefix_def)
      then show ?thesis
        by (simp add: recalculateCount_def setChild_def Let_def prefix_upd)
    qed
    moreover have "repr (S \<union> {?m..<length ?h4}) ?h4 (set_t (ANode c hs k0 v0 ts) ph H k v) ?m"
      using rr False i len node unfolding eqS hm
      by (simp add: childCount_def shiftSize_def Let_def)
    ultimately show ?thesis using lt len4 by auto
  qed
qed


subsection \<open>The invariants of the data model\<close>

text \<open>
  \<open>ents\<close> is the set of entries of a tree, \<open>hashes\<close> the hashes of their keys, and
  \<open>digit d H\<close> the 3-bit digit of \<open>H\<close> that selects the child at depth \<open>d\<close>. \<open>tinv d t\<close>
  holds for a tree at depth \<open>d\<close> when every node has eight children, its count is 1 plus
  the counts of its children, its hash is the hash of its key, no descendant has its
  hash, and every hash below child \<open>i\<close> has \<open>i\<close> as its digit at the node's depth.
\<close>

fun ents :: "'v atree \<Rightarrow> (64 word \<times> string \<times> 'v any) set" where
  "ents ANil = {}"
| "ents (ANode c hs k v ts) = insert (hs, k, v) (\<Union>t\<in>set ts. ents t)"

definition hashes :: "'v atree \<Rightarrow> 64 word set" where
  "hashes t = fst ` ents t"

definition digit :: "nat \<Rightarrow> 64 word \<Rightarrow> nat" where
  "digit d H = unat (drop_bit (3 * d) H mod 8)"

fun tinv :: "nat \<Rightarrow> 'v atree \<Rightarrow> bool" where
  "tinv d ANil = True"
| "tinv d (ANode c hs k v ts) =
     (length ts = childCount \<and> c = sum_list (map cnt ts) + 1 \<and> hs = hashKey k \<and>
      (\<forall>t\<in>set ts. tinv (Suc d) t \<and> hs \<notin> hashes t) \<and>
      (\<forall>i<length ts. \<forall>x\<in>hashes (ts ! i). digit d x = i))"

lemma hashes_simps [simp]:
  "hashes ANil = {}"
  "hashes (ANode c hs k v ts) = insert hs (\<Union>t\<in>set ts. hashes t)"
  by (auto simp: hashes_def)

lemma digit_step: "unat (drop_bit (3 * d) H mod 8) = digit d H"
  "drop_bit 3 (drop_bit (3 * d) H) = drop_bit (3 * Suc d) H"
  by (simp_all add: digit_def add.commute)

lemma digit_lt: "digit d H < childCount"
  using digit_less [of "drop_bit (3 * d) H"] by (simp add: digit_def childCount_def)

lemma cnt_nonneg: "tinv d t \<Longrightarrow> 0 \<le> cnt t"
proof (induction t arbitrary: d)
  case ANil
  then show ?case by simp
next
  case (ANode c hs k v ts)
  have "0 \<le> sum_list (map cnt ts)"
    by (rule sum_list_nonneg) (use ANode in auto)
  with ANode.prems show ?case by simp
qed

lemma cnt_pos: "tinv d t \<Longrightarrow> t \<noteq> ANil \<Longrightarrow> 1 \<le> cnt t"
proof (cases t)
  case ANil
  assume "t \<noteq> ANil" with ANil show ?thesis by simp
next
  case (ANode c hs k v ts)
  assume i: "tinv d t"
  have "0 \<le> sum_list (map cnt ts)"
    by (rule sum_list_nonneg) (use i ANode cnt_nonneg in auto)
  with i ANode show ?thesis by simp
qed

lemma in_child_hashes:
  assumes "tinv d (ANode c hs k v ts)" "H \<in> hashes t" "t \<in> set ts"
  shows "ts ! digit d H = t"
proof -
  from assms(3) obtain j where j: "j < length ts" "ts ! j = t" by (auto simp: in_set_conv_nth)
  with assms have "digit d H = j" by auto
  with j show ?thesis by simp
qed

lemma lookup_found:
  "tinv d t \<Longrightarrow> (H, k, v) \<in> ents t \<Longrightarrow> lookup_t t (drop_bit (3 * d) H) H = (v, True)"
proof (induction t arbitrary: d)
  case ANil
  then show ?case by simp
next
  case (ANode c hs k0 v0 ts)
  show ?case
  proof (cases "H = hs")
    case True
    have "(H, k, v) \<notin> ents t" if "t \<in> set ts" for t
      using ANode.prems(1) that True by (force simp: hashes_def)
    with ANode.prems(2) have "v = v0" by auto
    with True show ?thesis by simp
  next
    case False
    with ANode.prems(2) obtain t where t: "t \<in> set ts" "(H, k, v) \<in> ents t" by auto
    then have "H \<in> hashes t" by (force simp: hashes_def)
    from in_child_hashes [OF ANode.prems(1) this t(1)] have ti: "ts ! digit d H = t" .
    have "tinv (Suc d) t" using ANode.prems(1) t by simp
    from ANode.IH [OF t(1) this t(2)] ti False ANode.prems(1) digit_lt [of d H]
    show ?thesis by (simp add: digit_step)
  qed
qed

lemma lookup_not_found:
  "tinv d t \<Longrightarrow> H \<notin> hashes t \<Longrightarrow> lookup_t t (drop_bit (3 * d) H) H = (None, False)"
proof (induction t arbitrary: d)
  case ANil
  then show ?case by simp
next
  case (ANode c hs k0 v0 ts)
  from ANode.prems have ne: "H \<noteq> hs" by simp
  have len: "digit d H < length ts" using ANode.prems(1) digit_lt [of d H] by simp
  then have t: "ts ! digit d H \<in> set ts" by simp
  with ANode.prems have "tinv (Suc d) (ts ! digit d H)" "H \<notin> hashes (ts ! digit d H)" by auto
  from ANode.IH [OF t this] ne len show ?case by (simp add: digit_step)
qed

lemma lookup_set_same:
  "tinv d t \<Longrightarrow> lookup_t (set_t t ph H k v) ph H = (v, True)"
proof (induction t arbitrary: d ph)
  case ANil
  then show ?case by simp
next
  case (ANode c hs k0 v0 ts)
  have i: "unat (ph mod 8) < length ts"
    using ANode.prems digit_less [of ph] by (simp add: childCount_def)
  then have "ts ! unat (ph mod 8) \<in> set ts" by simp
  with ANode.prems ANode.IH [OF this, of "Suc d" "drop_bit 3 ph"] i show ?case
    by (simp add: Let_def)
qed


lemma UN_set_update:
  "i < length ts \<Longrightarrow>
     (\<Union>t\<in>set (ts[i := x]). f t) = f x \<union> (\<Union>j\<in>{..<length ts} - {i}. f (ts ! j))"
  by (auto simp: set_conv_nth nth_list_update split: if_splits)

lemma UN_set_nth: "(\<Union>t\<in>set ts. f t) = (\<Union>j<length ts. f (ts ! j))"
  by (auto simp: set_conv_nth)

lemma hashes_set_t: "tinv d t \<Longrightarrow> hashes (set_t t ph H k v) = insert H (hashes t)"
proof (induction t arbitrary: d ph)
  case ANil
  then show ?case by (simp add: childCount_def)
next
  case (ANode c hs k0 v0 ts)
  let ?i = "unat (ph mod 8)"
  have i: "?i < length ts"
    using ANode.prems digit_less [of ph] by (simp add: childCount_def)
  then have mem: "ts ! ?i \<in> set ts" by simp
  have IH: "hashes (set_t (ts ! ?i) (drop_bit 3 ph) H k v) = insert H (hashes (ts ! ?i))"
    using ANode.IH [OF mem, of "Suc d"] ANode.prems mem by simp
  show ?case
  proof (cases "H = hs")
    case True
    then show ?thesis by simp
  next
    case False
    have "(\<Union>t\<in>set (ts[?i := set_t (ts ! ?i) (drop_bit 3 ph) H k v]). hashes t)
            = insert H (\<Union>t\<in>set ts. hashes t)"
      unfolding UN_set_update [OF i] IH UN_set_nth [of _ ts] using i by auto
    with False i show ?thesis by (auto simp: Let_def)
  qed
qed

lemma sum_list_update_int:
  "i < length xs \<Longrightarrow> sum_list (xs[i := x]) = sum_list xs + x - (xs ! i :: int)"
proof (induction xs arbitrary: i)
  case Nil
  then show ?case by simp
next
  case (Cons y ys)
  then show ?case by (cases i) auto
qed

lemma tinv_set_t:
  "tinv d t \<Longrightarrow> tinv d (set_t t (drop_bit (3 * d) (hashKey k)) (hashKey k) k v)"
proof (induction t arbitrary: d)
  case ANil
  then show ?case by (simp add: childCount_def sum_list_replicate)
next
  case (ANode c hs k0 v0 ts)
  let ?H = "hashKey k"
  let ?i = "digit d ?H"
  let ?t' = "set_t (ts ! ?i) (drop_bit (3 * Suc d) ?H) ?H k v"
  from ANode.prems have len: "length ts = childCount" and c: "c = sum_list (map cnt ts) + 1"
    and hk: "hashKey k0 = hs"
    and ch: "\<And>t. t \<in> set ts \<Longrightarrow> tinv (Suc d) t \<and> hs \<notin> hashes t"
    and dg: "\<forall>i<length ts. \<forall>x\<in>hashes (ts ! i). digit d x = i"
    by auto
  have i: "?i < length ts" using len digit_lt [of d ?H] by simp
  then have mem: "ts ! ?i \<in> set ts" by simp
  show ?case
  proof (cases "?H = hs")
    case True
    have eq: "set_t (ANode c hs k0 v0 ts) (drop_bit (3 * d) ?H) ?H k v = ANode c hs k0 v ts"
      using True by simp
    have "tinv d (ANode c hs k0 v ts) = tinv d (ANode c hs k0 v0 ts)"
      by (simp only: tinv.simps)
    with ANode.prems have "tinv d (ANode c hs k0 v ts)" by blast
    then show ?thesis by (simp only: eq)
  next
    case False
    have inv': "tinv (Suc d) ?t'"
      using ANode.IH [OF mem, of "Suc d"] ch [OF mem] by simp
    have hs': "hashes ?t' = insert ?H (hashes (ts ! ?i))"
      using hashes_set_t [of "Suc d" "ts ! ?i"] ch [OF mem] by simp
    have 1: "tinv (Suc d) t \<and> hs \<notin> hashes t" if "t \<in> set (ts[?i := ?t'])" for t
    proof -
      from that obtain j where j: "j < length ts" "t = ts[?i := ?t'] ! j"
        by (auto simp: set_conv_nth)
      show ?thesis
      proof (cases "j = ?i")
        case True
        with j i inv' hs' False ch [OF mem] show ?thesis by auto
      next
        case False
        with j have "t \<in> set ts" by simp
        then show ?thesis by (rule ch)
      qed
    qed
    have 2: "digit d x = j" if "j < length ts" "x \<in> hashes (ts[?i := ?t'] ! j)" for j x
    proof (cases "j = ?i")
      case True
      with that i hs' dg show ?thesis by auto
    next
      case False
      with that dg show ?thesis by simp
    qed
    have eq: "set_t (ANode c hs k0 v0 ts) (drop_bit (3 * d) ?H) ?H k v
            = ANode (sum_list (map cnt (ts[?i := ?t'])) + 1) hs k0 v0 (ts[?i := ?t'])"
      using False i by (simp add: Let_def digit_step)
    have 3: "\<forall>t\<in>set (ts[?i := ?t']). tinv (Suc d) t \<and> hs \<notin> hashes t"
      using 1 by blast
    have 4: "\<forall>j<length ts. \<forall>x\<in>hashes (ts[?i := ?t'] ! j). digit d x = j"
      using 2 by blast
    have "tinv d (ANode (sum_list (map cnt (ts[?i := ?t'])) + 1) hs k0 v0 (ts[?i := ?t']))"
      unfolding tinv.simps length_list_update using len hk [symmetric] 3 4 by blast
    then show ?thesis by (simp only: eq)
  qed
qed

lemma cnt_set_t:
  "tinv d t \<Longrightarrow>
     cnt (set_t t (drop_bit (3 * d) H) H k v) = cnt t + (if H \<in> hashes t then 0 else 1)"
proof (induction t arbitrary: d)
  case ANil
  then show ?case by simp
next
  case (ANode c hs k0 v0 ts)
  let ?i = "digit d H"
  let ?t' = "set_t (ts ! ?i) (drop_bit (3 * Suc d) H) H k v"
  have i: "?i < length ts" using ANode.prems digit_lt [of d H] by simp
  then have mem: "ts ! ?i \<in> set ts" by simp
  show ?case
  proof (cases "H = hs")
    case True
    then show ?thesis by simp
  next
    case False
    have IH: "cnt ?t' = cnt (ts ! ?i) + (if H \<in> hashes (ts ! ?i) then 0 else 1)"
      using ANode.IH [OF mem, of "Suc d"] ANode.prems mem by simp
    have "(H \<in> (\<Union>t\<in>set ts. hashes t)) = (H \<in> hashes (ts ! ?i))"
      using in_child_hashes [OF ANode.prems] mem by auto
    moreover have "sum_list (map cnt (ts[?i := ?t'])) = sum_list (map cnt ts) + cnt ?t' - cnt (ts ! ?i)"
      using i by (simp add: map_update sum_list_update_int)
    ultimately show ?thesis
      using False i IH ANode.prems by (simp add: Let_def digit_step)
  qed
qed

subsection \<open>Delete on trees and its refinement\<close>

definition firstChild_t :: "'v atree list \<Rightarrow> nat option" where
  "firstChild_t ts = List.find (\<lambda>i. ts ! i \<noteq> ANil) [0..<length ts]"

definition findLargest_t :: "'v atree list \<Rightarrow> int \<times> int" where
  "findLargest_t ts =
     fold (\<lambda>j (i, size'). if cnt (ts ! j) > size' then (int j, cnt (ts ! j)) else (i, size'))
       [0..<length ts] (- 1, - 1)"

fun deleteLeftmost_t :: "'v atree \<Rightarrow> panic + 'v atree \<times> 'v atree" where
  "deleteLeftmost_t ANil = Inl NotLeafNoChildren"
| "deleteLeftmost_t (ANode c hs k v ts) =
     (if c = 1 then Inr (ANode c hs k v ts, ANil)
      else
        (case firstChild_t ts of
           None \<Rightarrow> Inl NotLeafNoChildren
         | Some i \<Rightarrow>
             if i < length ts then
               (case deleteLeftmost_t (ts ! i) of
                  Inl e \<Rightarrow> Inl e
                | Inr (deleted, child) \<Rightarrow>
                    (let ts' = ts[i := child]
                     in Inr (deleted, ANode (sum_list (map cnt ts') + 1) hs k v ts')))
             else Inl IndexOutOfRange))"

fun delete_t :: "'v atree \<Rightarrow> 64 word \<Rightarrow> 64 word \<Rightarrow> panic + 'v atree \<times> bool" where
  "delete_t ANil ph H = Inr (ANil, False)"
| "delete_t (ANode c hs k v ts) ph H =
     (if H \<noteq> hs then
        (let i = unat (ph mod 8)
         in if i < length ts then
              (case delete_t (ts ! i) (drop_bit 3 ph) H of
                 Inl e \<Rightarrow> Inl e
               | Inr (child, found) \<Rightarrow>
                   if \<not> found then Inr (ANode c hs k v ts, False)
                   else
                     (let ts' = ts[i := child]
                      in Inr (ANode (sum_list (map cnt ts') + 1) hs k v ts', True)))
            else Inl IndexOutOfRange)
      else if c = 1 then Inr (ANil, True)
      else
        (case findLargest_t ts of
           (i, size') \<Rightarrow>
             if i < 0 \<or> \<not> nat i < length ts then Inl IndexOutOfRange
             else
               (case deleteLeftmost_t (ts ! nat i) of
                  Inl e \<Rightarrow> Inl e
                | Inr (ANil, child) \<Rightarrow> Inl IndexOutOfRange
                | Inr (ANode rc rh rk rv rts, child) \<Rightarrow>
                    (let ts' = ts[nat i := child]
                     in Inr (ANode (sum_list (map cnt ts') + 1) rh rk rv ts', True)))))"

lemma children_nonneg:
  assumes "tinv d (ANode c hs k v ts)" "t \<in> set ts"
  shows "0 \<le> cnt t"
  using assms cnt_nonneg [of "Suc d" t] by simp

lemma sum_cnt_zero:
  assumes "tinv d (ANode c hs k v ts)"
  shows "(sum_list (map cnt ts) = 0) = (\<forall>t\<in>set ts. t = ANil)"
proof
  assume z: "sum_list (map cnt ts) = 0"
  show "\<forall>t\<in>set ts. t = ANil"
  proof
    fix t assume t: "t \<in> set ts"
    have "\<forall>x\<in>set (map cnt ts). 0 \<le> x" using assms children_nonneg [OF assms] by auto
    then have "cnt t \<le> sum_list (map cnt ts)"
      using t by (intro member_le_sum_list) auto
    with z have "cnt t \<le> 0" by simp
    moreover have "tinv (Suc d) t" using assms t by simp
    ultimately show "t = ANil" using cnt_pos [of "Suc d" t] by fastforce
  qed
next
  assume "\<forall>t\<in>set ts. t = ANil"
  then have "\<forall>t\<in>set ts. cnt t = 0" by auto
  then show "sum_list (map cnt ts) = 0" by (induction ts) auto
qed

lemma leaf_iff:
  assumes "tinv d (ANode c hs k v ts)"
  shows "(c = 1) = (\<forall>t\<in>set ts. t = ANil)"
  using sum_cnt_zero [OF assms] assms by auto

lemma firstChild_t_None: "(firstChild_t ts = None) = (\<forall>t\<in>set ts. t = ANil)"
  by (auto simp: firstChild_t_def find_None_iff set_conv_nth)

lemma firstChild_t_Some:
  "firstChild_t ts = Some i \<Longrightarrow> i < length ts \<and> ts ! i \<noteq> ANil"
  by (auto simp: firstChild_t_def find_Some_iff)


lemma tinv_child:
  assumes "tinv d (ANode c hs k v ts)" "i < length ts"
  shows "tinv (Suc d) (ts ! i)" "hs \<notin> hashes (ts ! i)"
    and "\<And>x. x \<in> hashes (ts ! i) \<Longrightarrow> digit d x = i"
  using assms by auto

lemma hashes_update:
  assumes "tinv d (ANode c hs k v ts)" "i < length ts"
    and "hashes t' = hashes (ts ! i) - {x}" "x \<in> hashes (ts ! i)"
  shows "(\<Union>t\<in>set (ts[i := t']). hashes t) = (\<Union>t\<in>set ts. hashes t) - {x}"
proof -
  have other: "x \<notin> hashes (ts ! j)" if "j < length ts" "j \<noteq> i" for j
  proof
    assume "x \<in> hashes (ts ! j)"
    with tinv_child(3) [OF assms(1) that(1)] have "digit d x = j" by simp
    moreover from tinv_child(3) [OF assms(1,2)] assms(4) have "digit d x = i" by simp
    ultimately show False using that by simp
  qed
  show ?thesis
    unfolding UN_set_update [OF assms(2)] assms(3) UN_set_nth [of _ ts]
    using other assms(2) by auto
qed

lemma tinv_update:
  assumes "tinv d (ANode c hs k v ts)" "i < length ts"
    and "tinv (Suc d) t'" "hashes t' \<subseteq> hashes (ts ! i)"
  shows "tinv d (ANode (sum_list (map cnt (ts[i := t'])) + 1) hs k v (ts[i := t']))"
proof -
  from assms(1) have len: "length ts = childCount" and hk: "hs = hashKey k" by auto
  have 1: "\<forall>t\<in>set (ts[i := t']). tinv (Suc d) t \<and> hs \<notin> hashes t"
  proof
    fix t assume "t \<in> set (ts[i := t'])"
    then obtain j where j: "j < length ts" "t = ts[i := t'] ! j"
      by (auto simp: set_conv_nth)
    show "tinv (Suc d) t \<and> hs \<notin> hashes t"
    proof (cases "j = i")
      case True
      with j assms(2-4) tinv_child(2) [OF assms(1,2)] show ?thesis by auto
    next
      case False
      with j tinv_child(1,2) [OF assms(1) j(1)] show ?thesis by simp
    qed
  qed
  have 2: "\<forall>j<length ts. \<forall>x\<in>hashes (ts[i := t'] ! j). digit d x = j"
  proof (intro allI impI ballI)
    fix j x assume j: "j < length ts" and x: "x \<in> hashes (ts[i := t'] ! j)"
    show "digit d x = j"
    proof (cases "j = i")
      case True
      with j x assms(4) have "x \<in> hashes (ts ! i)" by auto
      with tinv_child(3) [OF assms(1,2)] True show ?thesis by simp
    next
      case False
      with j x tinv_child(3) [OF assms(1) j(1)] show ?thesis by simp
    qed
  qed
  show ?thesis
    unfolding tinv.simps length_list_update using len hk 1 2 by blast
qed

lemma cnt_update:
  "i < length ts \<Longrightarrow>
     sum_list (map cnt (ts[i := t'])) + 1 = (sum_list (map cnt ts) + 1) + cnt t' - cnt (ts ! i)"
  by (simp add: map_update sum_list_update_int)

lemma deleteLeftmost_t_spec:
  assumes "tinv d t" "t \<noteq> ANil"
  shows "\<exists>hl kl vl rts t'. deleteLeftmost_t t = Inr (ANode 1 hl kl vl rts, t') \<and>
           hl \<in> hashes t \<and> hashes t' = hashes t - {hl} \<and> tinv d t' \<and>
           cnt t' = cnt t - 1 \<and> hashKey kl = hl \<and> length rts = childCount"
  using assms
proof (induction t arbitrary: d)
  case ANil
  then show ?case by simp
next
  case (ANode c hs k v ts)
  show ?case
  proof (cases "c = 1")
    case True
    with leaf_iff [OF ANode.prems(1)] have "\<forall>t\<in>set ts. t = ANil" by simp
    then have "(\<Union>t\<in>set ts. hashes t) = {}" by auto
    with True ANode.prems(1) show ?thesis by auto
  next
    case False
    with leaf_iff [OF ANode.prems(1)] have "firstChild_t ts \<noteq> None"
      by (simp add: firstChild_t_None)
    then obtain i where fc: "firstChild_t ts = Some i" by auto
    from firstChild_t_Some [OF fc] have i: "i < length ts" "ts ! i \<noteq> ANil" by auto
    then have mem: "ts ! i \<in> set ts" by simp
    from ANode.IH [OF mem tinv_child(1) [OF ANode.prems(1) i(1)] i(2)]
    obtain hl kl vl rts t' where
      rec: "deleteLeftmost_t (ts ! i) = Inr (ANode 1 hl kl vl rts, t')"
      and hl: "hl \<in> hashes (ts ! i)" and hs': "hashes t' = hashes (ts ! i) - {hl}"
      and inv': "tinv (Suc d) t'" and cnt': "cnt t' = cnt (ts ! i) - 1"
      and leaf: "hashKey kl = hl" "length rts = childCount"
      by blast
    let ?n = "ANode (sum_list (map cnt (ts[i := t'])) + 1) hs k v (ts[i := t'])"
    have res: "deleteLeftmost_t (ANode c hs k v ts) = Inr (ANode 1 hl kl vl rts, ?n)"
      using False fc i rec by (simp add: Let_def)
    have ne: "hl \<noteq> hs" using hl tinv_child(2) [OF ANode.prems(1) i(1)] by auto
    have "hashes ?n = insert hs ((\<Union>t\<in>set ts. hashes t) - {hl})"
      using hashes_update [OF ANode.prems(1) i(1) hs' hl] by simp
    then have 1: "hashes ?n = hashes (ANode c hs k v ts) - {hl}" using ne by auto
    have 2: "hl \<in> hashes (ANode c hs k v ts)" using hl mem by auto
    have 3: "tinv d ?n"
      by (rule tinv_update [OF ANode.prems(1) i(1) inv']) (use hs' in auto)
    have 4: "cnt ?n = cnt (ANode c hs k v ts) - 1"
      using cnt_update [OF i(1), of t'] cnt' ANode.prems(1) by simp
    from res 1 2 3 4 leaf show ?thesis by blast
  qed
qed


lemma findLargest_t_prefix:
  assumes "\<forall>t\<in>set ts. 0 \<le> cnt t" "n \<le> length ts"
  shows "let r = fold (\<lambda>j (i, size'). if cnt (ts ! j) > size' then (int j, cnt (ts ! j)) else (i, size'))
                   [0..<n] (- 1, - 1)
         in (n = 0 \<and> r = (- 1, - 1)) \<or>
            (\<exists>i<n. r = (int i, cnt (ts ! i)) \<and> (\<forall>j<n. cnt (ts ! j) \<le> cnt (ts ! i)))"
  using assms(2)
proof (induction n)
  case 0
  then show ?case by simp
next
  case (Suc n)
  let ?f = "\<lambda>j (i, size'). if cnt (ts ! j) > size' then (int j, cnt (ts ! j)) else (i, size')"
  let ?r = "fold ?f [0..<n] (- 1, - 1)"
  from Suc.prems have n: "n < length ts" by simp
  then have nn: "0 \<le> cnt (ts ! n)" using assms(1) by simp
  from Suc.IH n have IH: "(n = 0 \<and> ?r = (- 1, - 1)) \<or>
      (\<exists>i<n. ?r = (int i, cnt (ts ! i)) \<and> (\<forall>j<n. cnt (ts ! j) \<le> cnt (ts ! i)))"
    by (simp add: Let_def)
  have step: "fold ?f [0..<Suc n] (- 1, - 1) = ?f n ?r" by simp
  from IH show ?case
  proof
    assume "n = 0 \<and> ?r = (- 1, - 1)"
    then have "?f n ?r = (int n, cnt (ts ! n))" using nn by simp
    then show ?thesis unfolding Let_def step using \<open>n = 0 \<and> ?r = (- 1, - 1)\<close> by auto
  next
    assume "\<exists>i<n. ?r = (int i, cnt (ts ! i)) \<and> (\<forall>j<n. cnt (ts ! j) \<le> cnt (ts ! i))"
    then obtain i where i: "i < n" "?r = (int i, cnt (ts ! i))"
      "\<forall>j<n. cnt (ts ! j) \<le> cnt (ts ! i)" by blast
    show ?thesis
    proof (cases "cnt (ts ! n) > cnt (ts ! i)")
      case True
      then have r: "?f n ?r = (int n, cnt (ts ! n))" using i(2) by simp
      have "\<forall>j<Suc n. cnt (ts ! j) \<le> cnt (ts ! n)"
        using i(3) True by (auto simp: less_Suc_eq)
      with r show ?thesis unfolding Let_def step by (intro disjI2 exI [of _ n]) simp
    next
      case False
      then have r: "?f n ?r = (int i, cnt (ts ! i))" using i(2) by simp
      have "\<forall>j<Suc n. cnt (ts ! j) \<le> cnt (ts ! i)"
        using i(3) False by (auto simp: less_Suc_eq)
      with r i(1) show ?thesis unfolding Let_def step by (intro disjI2 exI [of _ i]) simp
    qed
  qed
qed

lemma findLargest_t_spec:
  assumes "\<forall>t\<in>set ts. 0 \<le> cnt t" "ts \<noteq> []"
  shows "\<exists>i<length ts. findLargest_t ts = (int i, cnt (ts ! i)) \<and>
           (\<forall>j<length ts. cnt (ts ! j) \<le> cnt (ts ! i))"
  using findLargest_t_prefix [OF assms(1), of "length ts"] assms(2)
  by (simp add: findLargest_t_def Let_def)


lemma sum_cnt_ge:
  assumes "tinv d (ANode c hs k v ts)" "i < length ts"
  shows "cnt (ts ! i) \<le> sum_list (map cnt ts)"
proof -
  have "\<forall>x\<in>set (map cnt ts). 0 \<le> x" using children_nonneg [OF assms(1)] by auto
  then show ?thesis using assms(2) by (intro member_le_sum_list) auto
qed

lemma largest_not_nil:
  assumes inv: "tinv d (ANode c hs k v ts)" and c: "c \<noteq> 1"
    and i: "i < length ts" "\<forall>j<length ts. cnt (ts ! j) \<le> cnt (ts ! i)"
  shows "ts ! i \<noteq> ANil"
proof
  assume nil: "ts ! i = ANil"
  have "t = ANil" if "t \<in> set ts" for t
  proof -
    from that obtain j where j: "j < length ts" "ts ! j = t" by (auto simp: in_set_conv_nth)
    with i(2) nil have "cnt t \<le> 0" by auto
    moreover have "tinv (Suc d) t" using inv that by simp
    ultimately show ?thesis using cnt_pos [of "Suc d" t] by fastforce
  qed
  with leaf_iff [OF inv] c show False by simp
qed

lemma tinv_node:
  assumes "tinv d (ANode c hs k v ts)"
  shows "length ts = childCount" "c = sum_list (map cnt ts) + 1" "hs = hashKey k"
    and "hs \<notin> (\<Union>t\<in>set ts. hashes t)"
  using assms by auto

lemma tinv_nodeI:
  assumes "length ts = childCount" "hs = hashKey k"
    and "\<forall>t\<in>set ts. tinv (Suc d) t \<and> hs \<notin> hashes t"
    and "\<forall>j<length ts. \<forall>x\<in>hashes (ts ! j). digit d x = j"
  shows "tinv d (ANode (sum_list (map cnt ts) + 1) hs k v ts)"
  unfolding tinv.simps using assms by blast

lemma tinv_nodeD:
  assumes "tinv d (ANode c hs k v ts)"
  shows "\<forall>t\<in>set ts. tinv (Suc d) t" "\<forall>j<length ts. \<forall>x\<in>hashes (ts ! j). digit d x = j"
  using assms unfolding tinv.simps by blast+

declare tinv.simps(2) [simp del]

lemma delete_t_spec:
  assumes "tinv d t"
  shows "\<exists>t'. delete_t t (drop_bit (3 * d) H) H = Inr (t', H \<in> hashes t) \<and>
           hashes t' = hashes t - {H} \<and> tinv d t' \<and>
           cnt t' = cnt t - (if H \<in> hashes t then 1 else 0) \<and>
           (H \<notin> hashes t \<longrightarrow> t' = t)"
  using assms
proof (induction t arbitrary: d)
  case ANil
  then show ?case by simp
next
  case (ANode c hs k v ts)
  note inv = ANode.prems
  note len = tinv_node(1) [OF inv] and cc = tinv_node(2) [OF inv]
  show ?case
  proof (cases "H = hs")
    case False
    let ?i = "digit d H"
    have i: "?i < length ts" using len digit_lt [of d H] by simp
    then have mem: "ts ! ?i \<in> set ts" by simp
    from ANode.IH [OF mem tinv_child(1) [OF inv i]]
    obtain t' where
      rec: "delete_t (ts ! ?i) (drop_bit (3 * Suc d) H) H = Inr (t', H \<in> hashes (ts ! ?i))"
      and hs': "hashes t' = hashes (ts ! ?i) - {H}" and inv': "tinv (Suc d) t'"
      and cnt': "cnt t' = cnt (ts ! ?i) - (if H \<in> hashes (ts ! ?i) then 1 else 0)"
      and same: "H \<notin> hashes (ts ! ?i) \<longrightarrow> t' = ts ! ?i"
      by blast
    have iff: "(H \<in> hashes (ANode c hs k v ts)) = (H \<in> hashes (ts ! ?i))"
      using False in_child_hashes [OF inv] mem by auto
    show ?thesis
    proof (cases "H \<in> hashes (ts ! ?i)")
      case absent: False
      have "delete_t (ANode c hs k v ts) (drop_bit (3 * d) H) H = Inr (ANode c hs k v ts, False)"
        using False i rec absent by (simp add: Let_def digit_step)
      moreover have "hashes (ANode c hs k v ts) - {H} = hashes (ANode c hs k v ts)"
        using iff absent by blast
      ultimately show ?thesis using iff absent inv by simp
    next
      case present: True
      let ?n = "ANode (sum_list (map cnt (ts[?i := t'])) + 1) hs k v (ts[?i := t'])"
      have res: "delete_t (ANode c hs k v ts) (drop_bit (3 * d) H) H = Inr (?n, True)"
        using False i rec present by (simp add: Let_def digit_step)
      have "hashes ?n = insert hs ((\<Union>t\<in>set ts. hashes t) - {H})"
        using hashes_update [OF inv i _ present, of t'] hs' by simp
      then have 1: "hashes ?n = hashes (ANode c hs k v ts) - {H}" using False by auto
      have 2: "tinv d ?n"
        by (rule tinv_update [OF inv i inv']) (use hs' in auto)
      have 3: "cnt ?n = cnt (ANode c hs k v ts) - 1"
        using cnt_update [OF i, of t'] cnt' present cc by simp
      from res 1 2 3 iff present show ?thesis by auto
    qed
  next
    case True
    note nothere = tinv_node(4) [OF inv]
    show ?thesis
    proof (cases "c = 1")
      case leaf: True
      with leaf_iff [OF inv] have "\<forall>t\<in>set ts. t = ANil" by simp
      then have "(\<Union>t\<in>set ts. hashes t) = {}" by auto
      with True leaf show ?thesis by auto
    next
      case inner: False
      have nn: "\<forall>t\<in>set ts. 0 \<le> cnt t" using children_nonneg [OF inv] by blast
      have ne: "ts \<noteq> []" using len by (auto simp: childCount_def)
      from findLargest_t_spec [OF nn ne] obtain i where
        i: "i < length ts" "findLargest_t ts = (int i, cnt (ts ! i))"
        "\<forall>j<length ts. cnt (ts ! j) \<le> cnt (ts ! i)" by blast
      have notnil: "ts ! i \<noteq> ANil" by (rule largest_not_nil [OF inv inner i(1,3)])
      from deleteLeftmost_t_spec [OF tinv_child(1) [OF inv i(1)] notnil]
      obtain hl kl vl rts t' where
        dl: "deleteLeftmost_t (ts ! i) = Inr (ANode 1 hl kl vl rts, t')"
        and hl: "hl \<in> hashes (ts ! i)" and hs': "hashes t' = hashes (ts ! i) - {hl}"
        and inv': "tinv (Suc d) t'" and cnt': "cnt t' = cnt (ts ! i) - 1"
        and hk: "hashKey kl = hl"
        by blast
      let ?ts' = "ts[i := t']"
      let ?n = "ANode (sum_list (map cnt ?ts') + 1) hl kl vl ?ts'"
      have res: "delete_t (ANode c hs k v ts) (drop_bit (3 * d) H) H = Inr (?n, True)"
        using True inner i(1,2) dl by (simp add: Let_def)
      have un: "(\<Union>t\<in>set ?ts'. hashes t) = (\<Union>t\<in>set ts. hashes t) - {hl}"
        by (rule hashes_update [OF inv i(1) hs' hl])
      have hlin: "hl \<in> (\<Union>t\<in>set ts. hashes t)" using hl i(1) by auto
      have 1: "hashes ?n = hashes (ANode c hs k v ts) - {H}"
        using un hlin nothere True by auto
      have mid: "tinv d (ANode (sum_list (map cnt ?ts') + 1) hs k v ?ts')"
        by (rule tinv_update [OF inv i(1) inv']) (use hs' in auto)
      have 2: "tinv d ?n"
      proof -
        note a = tinv_node(1) [OF mid] and b = tinv_nodeD(1) [OF mid] and e = tinv_nodeD(2) [OF mid]
        have "hl \<notin> (\<Union>t\<in>set ?ts'. hashes t)" unfolding un by simp
        then have f: "\<forall>t\<in>set ?ts'. tinv (Suc d) t \<and> hl \<notin> hashes t" using b by blast
        show ?thesis by (rule tinv_nodeI [OF a hk [symmetric] f e])
      qed
      have 3: "cnt ?n = cnt (ANode c hs k v ts) - 1"
        using cnt_update [OF i(1), of t'] cnt' cc by simp
      from res 1 2 3 True show ?thesis by auto
    qed
  qed
qed


lemma repr_nil_iff: "repr S h t a \<Longrightarrow> (a = nilMap) = (t = ANil)"
  by (cases t) auto

lemma reprs_length: "list_all2 (repr S h) ts cs \<Longrightarrow> length cs = length ts"
  by (simp add: list_all2_lengthD)

lemma firstChild_refine:
  assumes "list_all2 (repr S h) ts cs"
  shows "firstChild cs = firstChild_t ts"
proof -
  have "(cs ! i \<noteq> nilMap) = (ts ! i \<noteq> ANil)" if "i \<in> set [0..<length ts]" for i
    using repr_nil_iff [OF reprs_nth [OF assms, of i]] that by simp
  then show ?thesis
    unfolding firstChild_def firstChild_t_def reprs_length [OF assms]
    by (intro find_cong) auto
qed

lemma findLargest_refine:
  assumes "list_all2 (repr S h) ts cs" "wf_heap h"
  shows "findLargest h cs = findLargest_t ts"
proof -
  have "Size h (cs ! j) = cnt (ts ! j)" if "j \<in> set [0..<length ts]" for j
    using repr_Size [OF assms(2) reprs_nth [OF assms(1), of j]] that by simp
  then show ?thesis
    unfolding findLargest_def findLargest_t_def reprs_length [OF assms(1)]
    by (intro fold_cong) auto
qed

lemma deleteLeftmost_t_not_nil: "deleteLeftmost_t t = Inr (r, t') \<Longrightarrow> \<exists>hl kl vl rts. r = ANode 1 hl kl vl rts"
proof (induction t arbitrary: r t' rule: deleteLeftmost_t.induct)
  case 1
  then show ?case by simp
next
  case (2 c hs k v ts)
  show ?case
  proof (cases "c = 1")
    case True
    with 2(2) show ?thesis by auto
  next
    case False
    with 2(2) obtain i where i: "firstChild_t ts = Some i" "i < length ts"
      by (auto split: option.splits if_splits)
    with False 2(2) obtain r' ch where "deleteLeftmost_t (ts ! i) = Inr (r', ch)" "r = r'"
      by (auto simp: Let_def split: sum.splits)
    with 2(1) [OF False i] show ?thesis by blast
  qed
qed

text \<open>A clone of node \<open>a\<close> allocated on top of \<open>h1\<close> with child \<open>i\<close> replaced.\<close>

lemma clone_path_copy:
  assumes wf: "wf_heap h" and S: "S \<subseteq> {..<length h}"
    and node: "repr S h (ANode c hs k v ts) a"
    and pre: "prefix h h1"
    and ch: "repr (S \<union> {length h..<length h1}) h1 t' c'"
    and i: "i < childCount"
  defines "h4 \<equiv> recalculateCount (setChild (h1 @ [h1 ! a]) (length h1) i c') (length h1)"
  shows "prefix h h4" "length h4 = Suc (length h1)"
    "repr (S \<union> {length h..<length h4}) h4
       (ANode (sum_list (map cnt (ts[i := t'])) + 1) hs k v (ts[i := t'])) (length h1)"
    "\<And>x. x < length h1 \<Longrightarrow> h4 ! x = h1 ! x"
proof -
  let ?m = "length h1"
  let ?h2 = "h1 @ [h1 ! a]"
  let ?S2 = "S \<union> {length h..<length h1}"
  from node have a: "a \<in> S" "a < length h" and len: "length ts = childCount"
    and cs: "list_all2 (repr S h) ts (children (h ! a))"
    and fields: "hash (h ! a) = hs" "key (h ! a) = k" "val (h ! a) = v"
    by auto
  have le: "length h \<le> length h1" using pre by (rule prefix_length_le)
  have ha: "h1 ! a = h ! a" using prefix_nth [OF pre a(2)] .
  have wf1: "wf_heap h1" using wf pre by (rule wf_heap_prefix)
  have wf2: "wf_heap ?h2" using wf1 by (rule wf_heap_append)
  have pos: "?m \<noteq> nilMap" using wf1 by (auto simp: wf_heap_def nilMap_def)
  have mS: "?m \<notin> ?S2" using S le by auto
  have "list_all2 (repr S ?h2) ts (children (h ! a))"
    using cs
  proof (rule reprs_frame)
    fix x assume "x \<in> S" "x < length h"
    then show "x < length ?h2 \<and> ?h2 ! x = h ! x"
      using le prefix_nth [OF pre, of x] by (simp add: nth_append)
  qed
  then have "list_all2 (repr ?S2 ?h2) ts (children (h ! a))" by (rule reprs_mono) simp
  then have cs2: "list_all2 (repr ?S2 ?h2) ts (children (?h2 ! ?m))" by (simp add: ha)
  have ch2: "repr ?S2 ?h2 t' c'"
    using ch by (rule repr_frame) (simp add: nth_append)
  have m2: "?m < length ?h2" by simp
  have "repr (insert ?m ?S2) h4
          (ANode (sum_list (map cnt (ts[i := t'])) + 1)
             (hash (?h2 ! ?m)) (key (?h2 ! ?m)) (val (?h2 ! ?m)) (ts[i := t'])) ?m"
    unfolding h4_def by (rule path_copy_repr [OF wf2 m2 pos mS cs2 len ch2 i])
  moreover show len4: "length h4 = Suc (length h1)"
    by (simp add: h4_def recalculateCount_length setChild_length)
  moreover have "insert ?m ?S2 = S \<union> {length h..<length h4}" using le len4 by auto
  ultimately show "repr (S \<union> {length h..<length h4}) h4
       (ANode (sum_list (map cnt (ts[i := t'])) + 1) hs k v (ts[i := t'])) (length h1)"
    using fields ha by simp
  show "prefix h h4"
  proof -
    have "prefix h ?h2" using pre by (rule prefix_prefix)
    then have "prefix h (setChild ?h2 ?m i c')"
      unfolding setChild_def using le by (rule prefix_upd)
    then show ?thesis
      unfolding h4_def recalculateCount_def Let_def using le by (rule prefix_upd)
  qed
  show "h4 ! x = h1 ! x" if "x < length h1" for x
    using that by (simp add: h4_def recalculateCount_def setChild_def Let_def nth_append)
qed


lemma deleteLeftmost_refine:
  assumes "repr S h t a" "wf_heap h" "S \<subseteq> {..<length h}"
  shows "case deleteLeftmost_t t of
           Inl e \<Rightarrow> deleteLeftmost h a = Some (Inl e)
         | Inr (r, t') \<Rightarrow>
             \<exists>h' ra a'. deleteLeftmost h a = Some (Inr (h', ra, a')) \<and> prefix h h' \<and>
               repr S h' r ra \<and> repr (S \<union> {length h..<length h'}) h' t' a'"
  using assms
proof (induction t arbitrary: a)
  case ANil
  then have a: "a = nilMap" by simp
  have n: "h ! nilMap = nilTree" using ANil.prems by (simp add: wf_heap_def)
  have "firstChild (children (nilTree :: 'a tree)) = None"
    by (simp add: firstChild_def nilTree_def find_None_iff)
  then have "deleteLeftmost h a = Some (Inl NotLeafNoChildren)"
    by (subst deleteLeftmost.simps) (simp add: a isLeaf_def Size_def n, simp add: nilTree_def)
  then show ?case by simp
next
  case (ANode c hs k v ts)
  note node = ANode.prems(1) and wf = ANode.prems(2) and S = ANode.prems(3)
  from node have a: "a \<noteq> nilMap" "a \<in> S" "a < length h" and cnt: "count (h ! a) = c"
    and len: "length ts = childCount"
    and cs: "list_all2 (repr S h) ts (children (h ! a))"
    by auto
  have leaf: "isLeaf h a = (c = 1)" by (simp add: isLeaf_def Size_def cnt)
  have fc: "firstChild (children (h ! a)) = firstChild_t ts" using cs by (rule firstChild_refine)
  show ?case
  proof (cases "c = 1")
    case True
    then have "deleteLeftmost h a = Some (Inr (h, a, nilMap))"
      by (subst deleteLeftmost.simps) (simp add: leaf)
    moreover have "repr (S \<union> {length h..<length h}) h ANil nilMap" by simp
    ultimately show ?thesis using True node by auto
  next
    case False
    show ?thesis
    proof (cases "firstChild_t ts")
      case None
      then have "deleteLeftmost h a = Some (Inl NotLeafNoChildren)"
        using False by (subst deleteLeftmost.simps) (simp add: leaf fc)
      with None False show ?thesis by simp
    next
      case (Some i)
      from firstChild_t_Some [OF Some] have i: "i < length ts" by simp
      then have mem: "ts ! i \<in> set ts" by simp
      let ?ci = "children (h ! a) ! i"
      have ri: "repr S h (ts ! i) ?ci" using cs i by (rule reprs_nth)
      note IH = ANode.IH [OF mem ri wf S]
      have unfold: "deleteLeftmost h a =
          Option.bind (deleteLeftmost h ?ci)
            (\<lambda>r. case r of
               Inl e \<Rightarrow> Some (Inl e)
             | Inr (h1, deleted, child) \<Rightarrow>
                 (let (h2, newMap) = clone h1 a;
                      h3 = setChild h2 newMap i child;
                      h4 = recalculateCount h3 newMap
                  in Some (Inr (h4, deleted, newMap))))"
        using False by (subst deleteLeftmost.simps) (simp add: leaf fc Some)
      show ?thesis
      proof (cases "deleteLeftmost_t (ts ! i)")
        case (Inl e)
        with IH have "deleteLeftmost h ?ci = Some (Inl e)" by simp
        then have "deleteLeftmost h a = Some (Inl e)" unfolding unfold by simp
        with Inl False Some i show ?thesis by simp
      next
        case (Inr p)
        obtain r t' where p: "p = (r, t')" by (cases p)
        from IH Inr p obtain h1 ra c' where
          rec: "deleteLeftmost h ?ci = Some (Inr (h1, ra, c'))" and pre: "prefix h h1"
          and rr: "repr S h1 r ra" and rc: "repr (S \<union> {length h..<length h1}) h1 t' c'"
          by auto
        let ?h4 = "recalculateCount (setChild (h1 @ [h1 ! a]) (length h1) i c') (length h1)"
        have ic: "i < childCount" using i len by simp
        note cp = clone_path_copy [OF wf S node pre rc ic]
        have res: "deleteLeftmost h a = Some (Inr (?h4, ra, length h1))"
          unfolding unfold rec by (simp add: clone_def)
        have r4: "repr S ?h4 r ra"
          using rr
        proof (rule repr_frame)
          fix x assume "x \<in> S" "x < length h1"
          then show "x < length ?h4 \<and> ?h4 ! x = h1 ! x" using cp(2,4) by simp
        qed
        have pure: "deleteLeftmost_t (ANode c hs k v ts)
            = Inr (r, ANode (sum_list (map cnt (ts[i := t'])) + 1) hs k v (ts[i := t']))"
          using False Some i Inr p by (simp add: Let_def)
        show ?thesis
          unfolding pure using res cp(1,3) r4 by (simp only: sum.case prod.case) blast
      qed
    qed
  qed
qed


lemma findLargest_t_bound_aux:
  "fst (fold (\<lambda>j (i, size'). if cnt (ts ! j) > size' then (int j, cnt (ts ! j)) else (i, size'))
          [0..<n] (- 1, - 1)) < int n \<or> n = 0"
proof (induction n)
  case 0
  then show ?case by simp
next
  case (Suc n)
  then show ?case by (auto simp: case_prod_beta)
qed

lemma findLargest_t_bound: "findLargest_t ts = (i, sz) \<Longrightarrow> 0 \<le> i \<Longrightarrow> nat i < length ts"
  using findLargest_t_bound_aux [of ts "length ts"] by (auto simp: findLargest_t_def)

lemma fold_setChild_aux:
  assumes "m < length h" "self \<noteq> m" "n \<le> length (children (h ! m))"
  shows "fold (\<lambda>j hh. if int j = i then setChild hh m j child
                      else setChild hh m j (children (hh ! self) ! j)) [0..<n] h
         = h[m := (h ! m)\<lparr>children :=
               map (\<lambda>j. if int j = i then child else children (h ! self) ! j) [0..<n]
               @ drop n (children (h ! m))\<rparr>]"
  using assms(3)
proof (induction n)
  case 0
  then show ?case by simp
next
  case (Suc n)
  let ?g = "\<lambda>j. if int j = i then child else children (h ! self) ! j"
  let ?cs = "children (h ! m)"
  let ?hn = "h[m := (h ! m)\<lparr>children := map ?g [0..<n] @ drop n ?cs\<rparr>]"
  from Suc.prems have n: "n < length ?cs" by simp
  have self: "?hn ! self = h ! self" using assms(2) by simp
  have upd: "(map ?g [0..<n] @ drop n ?cs)[n := x] = map ?g [0..<n] @ x # drop (Suc n) ?cs" for x
    using n by (simp add: list_update_append upd_conv_take_nth_drop drop_Suc)
  have "setChild ?hn m n (?g n)
          = h[m := (h ! m)\<lparr>children := map ?g [0..<Suc n] @ drop (Suc n) ?cs\<rparr>]"
    using assms(1) by (simp add: setChild_def upd)
  moreover have "fold (\<lambda>j hh. if int j = i then setChild hh m j child
                      else setChild hh m j (children (hh ! self) ! j)) [0..<Suc n] h
        = setChild ?hn m n (?g n)"
    using Suc.IH n self by simp
  ultimately show ?case by simp
qed

lemma fold_setChild:
  assumes "m < length h" "self \<noteq> m" "length (children (h ! m)) = n"
    and "length (children (h ! self)) = n" "0 \<le> i" "nat i < n"
  shows "fold (\<lambda>j hh. if int j = i then setChild hh m j child
                      else setChild hh m j (children (hh ! self) ! j)) [0..<n] h
         = h[m := (h ! m)\<lparr>children := (children (h ! self))[nat i := child]\<rparr>]"
proof -
  have "map (\<lambda>j. if int j = i then child else children (h ! self) ! j) [0..<n]
          = (children (h ! self))[nat i := child]"
    using assms(4-6) by (intro nth_equalityI) (auto simp: nth_list_update)
  then show ?thesis
    using fold_setChild_aux [OF assms(1,2), of n i child] assms(3) by simp
qed


text \<open>The promotion step of Delete: a clone of the detached leaf \<open>ra\<close> takes the children of
  the deleted node \<open>a\<close>, with the donor slot replaced.\<close>

lemma promote_repr:
  assumes wf: "wf_heap h" and S: "S \<subseteq> {..<length h}"
    and node: "repr S h (ANode c hs k v ts) a"
    and pre: "prefix h h1"
    and rr: "repr S h1 (ANode rc rh rk rv rts) ra"
    and ch: "repr (S \<union> {length h..<length h1}) h1 t' c'"
    and i: "0 \<le> i" "nat i < childCount"
  defines "h3 \<equiv> fold (\<lambda>j hh. if int j = i then setChild hh (length h1) j c'
                               else setChild hh (length h1) j (children (hh ! a) ! j))
                  [0..<childCount] (h1 @ [h1 ! ra])"
  defines "h4 \<equiv> recalculateCount h3 (length h1)"
  shows "prefix h h4"
    and "repr (S \<union> {length h..<length h4}) h4
           (ANode (sum_list (map cnt (ts[nat i := t'])) + 1) rh rk rv (ts[nat i := t']))
           (length h1)"
proof -
  let ?m = "length h1"
  let ?h2 = "h1 @ [h1 ! ra]"
  let ?S2 = "S \<union> {length h..<length h1}"
  let ?cs' = "(children (h ! a))[nat i := c']"
  let ?n = "(h1 ! ra)\<lparr>children := ?cs'\<rparr>"
  from node have a: "a \<in> S" "a < length h" and len: "length ts = childCount"
    and cs: "list_all2 (repr S h) ts (children (h ! a))"
    by auto
  from rr have ra: "ra < length h1"
    and rf: "hash (h1 ! ra) = rh" "key (h1 ! ra) = rk" "val (h1 ! ra) = rv"
    and rlen: "length rts = childCount" "list_all2 (repr S h1) rts (children (h1 ! ra))"
    by auto
  have le: "length h \<le> length h1" using pre by (rule prefix_length_le)
  have ha: "h1 ! a = h ! a" using prefix_nth [OF pre a(2)] .
  have am: "a \<noteq> ?m" "a < ?m" using a(2) le by auto
  have l1: "length (children (?h2 ! ?m)) = childCount"
    using reprs_length [OF rlen(2)] rlen(1) by simp
  have l2: "length (children (?h2 ! a)) = childCount"
    using reprs_length [OF cs] len am ha by (simp add: nth_append)
  have h3: "h3 = ?h2[?m := ?n]"
    unfolding h3_def
    using fold_setChild [of ?m ?h2 a childCount i c', OF _ am(1) l1 l2 i] am(2) ha
    by (simp add: nth_append)
  then have h3': "h3 = h1 @ [?n]" by simp
  have wf1: "wf_heap h1" using wf pre by (rule wf_heap_prefix)
  have wf3: "wf_heap h3" unfolding h3' using wf1 by (rule wf_heap_append)
  have pos: "?m \<noteq> nilMap" using wf1 by (auto simp: wf_heap_def nilMap_def)
  have mS: "?m \<notin> ?S2" using S le by auto
  have m3: "?m < length h3" by (simp add: h3')
  have "list_all2 (repr S h) (ts[nat i := t']) ((children (h ! a))[nat i := t''])"
    if "repr S h t' t''" for t''
    using cs that by (simp add: list_all2_update_cong)
  have old: "list_all2 (repr ?S2 h3) ts (children (h ! a))"
  proof (rule reprs_mono)
    show "list_all2 (repr S h3) ts (children (h ! a))"
      using cs
    proof (rule reprs_frame)
      fix x assume "x \<in> S" "x < length h"
      then show "x < length h3 \<and> h3 ! x = h ! x"
        using le prefix_nth [OF pre, of x] by (simp add: h3' nth_append)
    qed
  qed simp
  have new: "repr ?S2 h3 t' c'"
    using ch by (rule repr_frame) (simp add: h3' nth_append)
  have "list_all2 (repr ?S2 h3) (ts[nat i := t']) ?cs'"
    using old new by (simp add: list_all2_update_cong)
  then have cs3: "list_all2 (repr ?S2 h3) (ts[nat i := t']) (children (h3 ! ?m))"
    by (simp add: h3')
  have len3: "length (ts[nat i := t']) = childCount" using len by simp
  have "repr (insert ?m ?S2) h4
          (ANode (sum_list (map cnt (ts[nat i := t'])) + 1)
             (hash (h3 ! ?m)) (key (h3 ! ?m)) (val (h3 ! ?m)) (ts[nat i := t'])) ?m"
    unfolding h4_def by (rule recalculateCount_repr [OF wf3 m3 pos mS cs3 len3])
  moreover have len4: "length h4 = Suc (length h1)"
    by (simp add: h4_def recalculateCount_length h3')
  moreover have "insert ?m ?S2 = S \<union> {length h..<length h4}" using le len4 by auto
  ultimately show "repr (S \<union> {length h..<length h4}) h4
           (ANode (sum_list (map cnt (ts[nat i := t'])) + 1) rh rk rv (ts[nat i := t']))
           (length h1)"
    using rf by (simp add: h3')
  show "prefix h h4"
  proof -
    have "prefix h h3" unfolding h3' using pre by (rule prefix_prefix)
    then show ?thesis
      unfolding h4_def recalculateCount_def Let_def using le by (rule prefix_upd)
  qed
qed


lemma deleteLowLevel_refine:
  assumes "repr S h t a" "wf_heap h" "S \<subseteq> {..<length h}"
  shows "case delete_t t ph H of
           Inl e \<Rightarrow> deleteLowLevel h a ph H = Some (Inl e)
         | Inr (t', found) \<Rightarrow>
             \<exists>h' a'. deleteLowLevel h a ph H = Some (Inr (h', a', found)) \<and> prefix h h' \<and>
               repr (S \<union> {length h..<length h'}) h' t' a' \<and>
               (\<not> found \<longrightarrow> h' = h \<and> a' = a)"
  using assms
proof (induction t arbitrary: a ph)
  case ANil
  then have "deleteLowLevel h a ph H = Some (Inr (h, a, False))"
    by (subst deleteLowLevel.simps) (simp add: IsNil_def)
  with ANil show ?case by simp
next
  case (ANode c hs k v ts)
  note node = ANode.prems(1) and wf = ANode.prems(2) and S = ANode.prems(3)
  from node have a: "a \<noteq> nilMap" "a \<in> S" "a < length h" and cnt: "count (h ! a) = c"
    and hs: "hash (h ! a) = hs" and len: "length ts = childCount"
    and cs: "list_all2 (repr S h) ts (children (h ! a))"
    by auto
  have nn: "\<not> IsNil a" using a by (simp add: IsNil_def)
  have leaf: "isLeaf h a = (c = 1)" by (simp add: isLeaf_def Size_def cnt)
  show ?case
  proof (cases "H = hs")
    case False
    let ?i = "unat (ph mod 8)"
    let ?ci = "children (h ! a) ! ?i"
    let ?ph' = "drop_bit 3 ph"
    have ic: "?i < childCount" using digit_less [of ph] by (simp add: childCount_def)
    then have i: "?i < length ts" using len by simp
    then have mem: "ts ! ?i \<in> set ts" by simp
    have ri: "repr S h (ts ! ?i) ?ci" using cs i by (rule reprs_nth)
    note IH = ANode.IH [OF mem ri wf S, of ?ph']
    have unfold: "deleteLowLevel h a ph H =
        Option.bind (deleteLowLevel h ?ci ?ph' H)
          (\<lambda>r. case r of
             Inl e \<Rightarrow> Some (Inl e)
           | Inr (h1, child, found) \<Rightarrow>
               if \<not> found then Some (Inr (h1, a, False))
               else
                 (let (h2, newMap) = clone h1 a;
                      h3 = setChild h2 newMap ?i child;
                      h4 = recalculateCount h3 newMap
                  in Some (Inr (h4, newMap, True))))"
      using False nn hs
      by (subst deleteLowLevel.simps) (simp add: Let_def childCount_def shiftSize_def)
    have pure: "delete_t (ANode c hs k v ts) ph H =
        (case delete_t (ts ! ?i) ?ph' H of
           Inl e \<Rightarrow> Inl e
         | Inr (child, found) \<Rightarrow>
             if \<not> found then Inr (ANode c hs k v ts, False)
             else Inr (ANode (sum_list (map cnt (ts[?i := child])) + 1) hs k v (ts[?i := child]), True))"
      using False i by (simp add: Let_def split: sum.split)
    show ?thesis
    proof (cases "delete_t (ts ! ?i) ?ph' H")
      case (Inl e)
      with IH have "deleteLowLevel h ?ci ?ph' H = Some (Inl e)" by simp
      then have "deleteLowLevel h a ph H = Some (Inl e)" unfolding unfold by simp
      then show ?thesis unfolding pure Inl by simp
    next
      case (Inr p)
      obtain t' found where p: "p = (t', found)" by (cases p)
      from IH Inr p obtain h1 c' where
        rec: "deleteLowLevel h ?ci ?ph' H = Some (Inr (h1, c', found))" and pre: "prefix h h1"
        and rc: "repr (S \<union> {length h..<length h1}) h1 t' c'"
        and nf: "\<not> found \<longrightarrow> h1 = h \<and> c' = ?ci"
        by auto
      show ?thesis
      proof (cases found)
        case False
        with nf have "deleteLowLevel h a ph H = Some (Inr (h, a, False))"
          unfolding unfold rec by simp
        moreover have "repr (S \<union> {length h..<length h}) h (ANode c hs k v ts) a"
          using node by (rule repr_mono) simp
        ultimately show ?thesis
          unfolding pure Inr p using False by (simp only: sum.case prod.case) auto
      next
        case True
        let ?h4 = "recalculateCount (setChild (h1 @ [h1 ! a]) (length h1) ?i c') (length h1)"
        note cp = clone_path_copy [OF wf S node pre rc ic]
        have "deleteLowLevel h a ph H = Some (Inr (?h4, length h1, True))"
          unfolding unfold rec using True by (simp add: clone_def)
        then show ?thesis
          unfolding pure Inr p using True cp(1,3)
          by (simp only: sum.case prod.case) auto
      qed
    qed
  next
    case True
    show ?thesis
    proof (cases "c = 1")
      case leaf1: True
      have "deleteLowLevel h a ph H = Some (Inr (h, nilMap, True))"
        using True nn hs leaf1 by (subst deleteLowLevel.simps) (simp add: leaf)
      moreover have "delete_t (ANode c hs k v ts) ph H = Inr (ANil, True)"
        using True leaf1 by simp
      moreover have "repr (S \<union> {length h..<length h}) h ANil nilMap" by simp
      ultimately show ?thesis by (simp only: sum.case prod.case) auto
    next
      case inner: False
      obtain i sz where fl: "findLargest_t ts = (i, sz)" by (cases "findLargest_t ts")
      have flh: "findLargest h (children (h ! a)) = (i, sz)"
        using findLargest_refine [OF cs wf] fl by simp
      let ?ci = "children (h ! a) ! nat i"
      have unfold: "deleteLowLevel h a ph H =
          (if i < 0 then Some (Inl IndexOutOfRange)
           else
             (case deleteLeftmost h ?ci of
                None \<Rightarrow> None
              | Some (Inl e) \<Rightarrow> Some (Inl e)
              | Some (Inr (h1, replacement, child)) \<Rightarrow>
                  (let (h2, newMap) = clone h1 replacement;
                       h3 = fold (\<lambda>j hh. if int j = i then setChild hh newMap j child
                                         else setChild hh newMap j (children (hh ! a) ! j))
                              [0..<childCount] h2;
                       h4 = recalculateCount h3 newMap
                   in Some (Inr (h4, newMap, True)))))"
        using True nn hs inner by (subst deleteLowLevel.simps) (simp add: leaf flh)
      show ?thesis
      proof (cases "i < 0")
        case neg: True
        then have "deleteLowLevel h a ph H = Some (Inl IndexOutOfRange)" unfolding unfold by simp
        moreover have "delete_t (ANode c hs k v ts) ph H = Inl IndexOutOfRange"
          using True inner fl neg by simp
        ultimately show ?thesis by simp
      next
        case nonneg: False
        then have i0: "0 \<le> i" by simp
        have i: "nat i < length ts" using findLargest_t_bound [OF fl i0] .
        then have ic: "nat i < childCount" using len by simp
        have mem: "ts ! nat i \<in> set ts" using i by simp
        have ri: "repr S h (ts ! nat i) ?ci" using cs i by (rule reprs_nth)
        note DL = deleteLeftmost_refine [OF ri wf S]
        have pure: "delete_t (ANode c hs k v ts) ph H =
            (case deleteLeftmost_t (ts ! nat i) of
               Inl e \<Rightarrow> Inl e
             | Inr (ANil, child) \<Rightarrow> Inl IndexOutOfRange
             | Inr (ANode rc rh rk rv rts, child) \<Rightarrow>
                 Inr (ANode (sum_list (map cnt (ts[nat i := child])) + 1) rh rk rv
                        (ts[nat i := child]), True))"
          using True inner fl nonneg i by (simp add: Let_def split: sum.split atree.split)
        show ?thesis
        proof (cases "deleteLeftmost_t (ts ! nat i)")
          case (Inl e)
          with DL have "deleteLeftmost h ?ci = Some (Inl e)" by simp
          then have "deleteLowLevel h a ph H = Some (Inl e)"
            unfolding unfold using nonneg by simp
          then show ?thesis unfolding pure Inl by simp
        next
          case (Inr p)
          obtain r t' where p: "p = (r, t')" by (cases p)
          from deleteLeftmost_t_not_nil [OF Inr [unfolded p]]
          obtain rh rk rv rts where r: "r = ANode 1 rh rk rv rts" by blast
          from DL Inr p obtain h1 ra c' where
            rec: "deleteLeftmost h ?ci = Some (Inr (h1, ra, c'))" and pre: "prefix h h1"
            and rr: "repr S h1 r ra" and rc: "repr (S \<union> {length h..<length h1}) h1 t' c'"
            by auto
          let ?h3 = "fold (\<lambda>j hh. if int j = i then setChild hh (length h1) j c'
                               else setChild hh (length h1) j (children (hh ! a) ! j))
                  [0..<childCount] (h1 @ [h1 ! ra])"
          let ?h4 = "recalculateCount ?h3 (length h1)"
          note pr = promote_repr [OF wf S node pre rr [unfolded r] rc i0 ic]
          have "deleteLowLevel h a ph H = Some (Inr (?h4, length h1, True))"
            unfolding unfold rec using nonneg by (simp add: clone_def)
          then show ?thesis
            unfolding pure Inr p r using pr
            by (simp only: sum.case prod.case atree.case) auto
        qed
      qed
    qed
  qed
qed

subsection \<open>ForEach and Keys on trees\<close>

fun entries_t :: "'v atree \<Rightarrow> (string \<times> 'v any) list" where
  "entries_t ANil = []"
| "entries_t (ANode c hs k v ts) = (k, v) # concat (map entries_t ts)"

text \<open>Calling the callback on a sequence of entries, one call per entry, in order; a panic
  of the callback ends the sequence.\<close>

fun runCallbacks ::
  "(string \<Rightarrow> 'v any \<Rightarrow> 's \<Rightarrow> panic + 's) \<Rightarrow> (string \<times> 'v any) list \<Rightarrow> 's \<Rightarrow> panic + 's" where
  "runCallbacks f [] s = Inr s"
| "runCallbacks f ((k, v) # es) s =
     (case f k v s of Inl e \<Rightarrow> Inl e | Inr s' \<Rightarrow> runCallbacks f es s')"

lemma runCallbacks_append:
  "runCallbacks f (xs @ ys) s =
     (case runCallbacks f xs s of Inl e \<Rightarrow> Inl e | Inr s' \<Rightarrow> runCallbacks f ys s')"
  by (induction f xs s rule: runCallbacks.induct) (auto split: sum.splits)

lemma forRange_children:
  assumes "list_all2 (\<lambda>t c. \<forall>s. body c s = Some (runCallbacks f (entries_t t) s)) ts cs"
  shows "forRange body cs s = Some (runCallbacks f (concat (map entries_t ts)) s)"
  using assms
proof (induction ts cs arbitrary: s rule: list_all2_induct)
  case Nil
  then show ?case by simp
next
  case (Cons t ts c cs)
  show ?case
  proof (cases "runCallbacks f (entries_t t) s")
    case (Inl e)
    with Cons show ?thesis by (simp add: runCallbacks_append)
  next
    case (Inr s')
    with Cons show ?thesis by (simp add: runCallbacks_append)
  qed
qed

lemma ForEach_nil: "ForEach h nilMap f s = Some (Inr s)"
  by (subst ForEach.simps) (simp add: IsNil_def)

lemma ForEach_refine:
  "repr S h t a \<Longrightarrow> ForEach h a f s = Some (runCallbacks f (entries_t t) s)"
proof (induction t arbitrary: a s)
  case ANil
  then show ?case by (simp add: ForEach_nil)
next
  case (ANode c hs k v ts)
  from ANode.prems have a: "\<not> IsNil a" and kv: "key (h ! a) = k" "val (h ! a) = v"
    and cs: "list_all2 (repr S h) ts (children (h ! a))"
    by (auto simp: IsNil_def)
  let ?body = "\<lambda>c s2. if c \<noteq> nilMap then ForEach h c f s2 else Some (Inr s2)"
  have "list_all2 (\<lambda>t c. \<forall>s. ?body c s = Some (runCallbacks f (entries_t t) s))
          ts (children (h ! a))"
  proof (rule list_all2_all_nthI)
    show "length ts = length (children (h ! a))" using cs by (rule list_all2_lengthD)
  next
    fix n assume n: "n < length ts"
    then have r: "repr S h (ts ! n) (children (h ! a) ! n)" using cs by (simp add: reprs_nth)
    have "ForEach h (children (h ! a) ! n) f s = Some (runCallbacks f (entries_t (ts ! n)) s)" for s
      using ANode.IH [OF _ r] n by simp
    moreover have "entries_t (ts ! n) = []" if "children (h ! a) ! n = nilMap"
      using repr_nil_iff [OF r] that by simp
    ultimately show "\<forall>s. ?body (children (h ! a) ! n) s = Some (runCallbacks f (entries_t (ts ! n)) s)"
      by simp
  qed
  then have loop: "forRange ?body (children (h ! a)) s1
      = Some (runCallbacks f (concat (map entries_t ts)) s1)" for s1
    by (rule forRange_children)
  show ?case
    by (subst ForEach.simps) (simp add: a kv loop split: sum.split)
qed

lemma storeKey_run:
  "i + length es \<le> length ks \<Longrightarrow>
     runCallbacks storeKey es (ks, i)
       = Inr (take i ks @ map fst es @ drop (i + length es) ks, i + length es)"
proof (induction es arbitrary: ks i)
  case Nil
  then show ?case by simp
next
  case (Cons e es)
  obtain k v where e: "e = (k, v)" by (cases e)
  from Cons.prems have i: "i < length ks" and le: "Suc i + length es \<le> length (ks[i := k])"
    by auto
  have "take (Suc i) (ks[i := k]) = take i ks @ [k]"
    using i by (simp add: take_Suc_conv_app_nth)
  with Cons.IH [OF le] i show ?case
    by (simp add: e storeKey_def)
qed

lemma Keys_refine:
  assumes "repr S h t a" "wf_heap h" "int (length (entries_t t)) = cnt t"
  shows "Keys h a = Some (Inr (map fst (entries_t t)))"
proof -
  have sz: "Size h a = int (length (entries_t t))"
    using repr_Size [OF assms(2,1)] assms(3) by simp
  have "runCallbacks storeKey (entries_t t) (replicate (length (entries_t t)) [], 0)
          = Inr (map fst (entries_t t), length (entries_t t))"
    using storeKey_run [of 0 "entries_t t" "replicate (length (entries_t t)) []"] by simp
  then show ?thesis
    unfolding Keys_def using ForEach_refine [OF assms(1), of storeKey] by (simp add: sz)
qed


lemma length_entries: "tinv d t \<Longrightarrow> int (length (entries_t t)) = cnt t"
proof (induction t arbitrary: d)
  case ANil
  then show ?case by simp
next
  case (ANode c hs k v ts)
  have "int (length (entries_t t)) = cnt t" if "t \<in> set ts" for t
    using ANode.IH [OF that] tinv_nodeD(1) [OF ANode.prems] that by blast
  then have "map (\<lambda>t. int (length (entries_t t))) ts = map cnt ts" by simp
  then have "sum_list (map (\<lambda>t. int (length (entries_t t))) ts) = sum_list (map cnt ts)"
    by (rule arg_cong)
  moreover have "int (sum_list (map (\<lambda>t. length (entries_t t)) ts))
      = sum_list (map (\<lambda>t. int (length (entries_t t))) ts)"
    by (induction ts) auto
  ultimately have "int (sum_list (map (\<lambda>t. length (entries_t t)) ts)) = sum_list (map cnt ts)"
    by simp
  then show ?case
    using tinv_node(2) [OF ANode.prems] by (simp add: length_concat comp_def)
qed

lemma ents_entries:
  "tinv d t \<Longrightarrow> ents t = (\<lambda>(k, v). (hashKey k, k, v)) ` set (entries_t t)"
proof (induction t arbitrary: d)
  case ANil
  then show ?case by simp
next
  case (ANode c hs k v ts)
  have "ents t = (\<lambda>(k, v). (hashKey k, k, v)) ` set (entries_t t)" if "t \<in> set ts" for t
    using ANode.IH [OF that] tinv_nodeD(1) [OF ANode.prems] that by blast
  then have "(\<Union>t\<in>set ts. ents t) = (\<Union>t\<in>set ts. (\<lambda>(k, v). (hashKey k, k, v)) ` set (entries_t t))"
    by simp
  then show ?case using tinv_node(3) [OF ANode.prems] by (auto simp: image_UN)
qed

lemma hashes_entries: "tinv d t \<Longrightarrow> hashes t = set (map (hashKey \<circ> fst) (entries_t t))"
  unfolding hashes_def by (subst ents_entries) (force simp: image_iff)+

lemma distinct_concat_nth:
  assumes "\<forall>i<length xs. distinct (xs ! i)"
    and "\<forall>i j. i < j \<and> j < length xs \<longrightarrow> set (xs ! i) \<inter> set (xs ! j) = {}"
  shows "distinct (concat xs)"
  using assms
proof (induction xs)
  case Nil
  then show ?case by simp
next
  case (Cons x xs)
  have 1: "distinct x" using Cons.prems(1) by force
  have 2: "\<forall>i<length xs. distinct (xs ! i)" using Cons.prems(1) by force
  have 3: "\<forall>i j. i < j \<and> j < length xs \<longrightarrow> set (xs ! i) \<inter> set (xs ! j) = {}"
  proof (intro allI impI)
    fix i j assume "i < j \<and> j < length xs"
    then have "Suc i < Suc j \<and> Suc j < length (x # xs)" by simp
    with Cons.prems(2) have "set ((x # xs) ! Suc i) \<inter> set ((x # xs) ! Suc j) = {}" by blast
    then show "set (xs ! i) \<inter> set (xs ! j) = {}" by simp
  qed
  have 4: "set x \<inter> set y = {}" if "y \<in> set xs" for y
  proof -
    from that obtain j where j: "j < length xs" "xs ! j = y" by (auto simp: in_set_conv_nth)
    then have "0 < Suc j \<and> Suc j < length (x # xs)" by simp
    with Cons.prems(2) have "set ((x # xs) ! 0) \<inter> set ((x # xs) ! Suc j) = {}" by blast
    with j show ?thesis by simp
  qed
  from 1 Cons.IH [OF 2 3] 4 show ?case by auto
qed

lemma distinct_hashes_entries: "tinv d t \<Longrightarrow> distinct (map (hashKey \<circ> fst) (entries_t t))"
proof (induction t arbitrary: d)
  case ANil
  then show ?case by simp
next
  case (ANode c hs k v ts)
  note inv = ANode.prems
  let ?f = "\<lambda>t. map (hashKey \<circ> fst) (entries_t t)"
  have ch: "tinv (Suc d) t" if "t \<in> set ts" for t
    using tinv_nodeD(1) [OF inv] that by blast
  have set_f: "set (?f t) = hashes t" if "t \<in> set ts" for t
    using hashes_entries [OF ch [OF that]] by simp
  have eq: "map (hashKey \<circ> fst) (concat (map entries_t ts)) = concat (map ?f ts)"
    by (simp add: map_concat comp_def)
  have d1: "\<forall>i<length (map ?f ts). distinct (map ?f ts ! i)"
  proof (intro allI impI)
    fix i assume "i < length (map ?f ts)"
    then have i: "i < length ts" by simp
    then have mem: "ts ! i \<in> set ts" by simp
    have "distinct (?f (ts ! i))" by (rule ANode.IH [OF mem ch [OF mem]])
    with i show "distinct (map ?f ts ! i)" by simp
  qed
  have d2: "\<forall>i j. i < j \<and> j < length (map ?f ts) \<longrightarrow>
      set (map ?f ts ! i) \<inter> set (map ?f ts ! j) = {}"
  proof (intro allI impI)
    fix i j assume ij: "i < j \<and> j < length (map ?f ts)"
    then have i: "i < length ts" and j: "j < length ts" by auto
    have "hashes (ts ! i) \<inter> hashes (ts ! j) = {}"
    proof (rule ccontr)
      assume "hashes (ts ! i) \<inter> hashes (ts ! j) \<noteq> {}"
      then obtain x where "x \<in> hashes (ts ! i)" "x \<in> hashes (ts ! j)" by blast
      with tinv_child(3) [OF inv i] tinv_child(3) [OF inv j] have "i = j" by metis
      with ij show False by simp
    qed
    then show "set (map ?f ts ! i) \<inter> set (map ?f ts ! j) = {}"
      using i j set_f by simp
  qed
  have a: "distinct (concat (map ?f ts))" using d1 d2 by (rule distinct_concat_nth)
  have b: "hs \<notin> set (concat (map ?f ts))"
    using tinv_node(4) [OF inv] set_f by auto
  have hk: "hashKey k = hs" using tinv_node(3) [OF inv] by simp
  have "map (hashKey \<circ> fst) (entries_t (ANode c hs k v ts)) = hs # concat (map ?f ts)"
    by (simp only: entries_t.simps list.map comp_apply fst_conv hk) (simp only: eq)
  then show ?case using a b by (simp only: distinct.simps) simp
qed

lemma distinct_keys_entries: "tinv d t \<Longrightarrow> distinct (map fst (entries_t t))"
  using distinct_hashes_entries [of d t] by (simp add: distinct_map map_map [symmetric] del: map_map)

section \<open>Well-formed maps\<close>

text \<open>
  A handle \<open>m\<close> is well-formed in a heap when the heap holds the sentinel at \<open>nilMap\<close> and
  the nodes reachable from \<open>m\<close> form a tree that satisfies the invariants of the data
  model: counts, the routing of hashes by 3-bit digits, and one node per hash. The empty
  map is well-formed, \<open>Set\<close> and \<open>Delete\<close> return well-formed maps, and handles stay
  well-formed when the heap grows, so every handle a program can obtain is well-formed
  (\<open>reachable_wf_map\<close> below).
\<close>

definition wf_map :: "'v heap \<Rightarrow> addr \<Rightarrow> bool" where
  "wf_map h m = (wf_heap h \<and> (\<exists>t. repr UNIV h t m \<and> tinv 0 t))"

lemma repr_restrict: "repr S h t a \<Longrightarrow> repr (S \<inter> {..<length h}) h t a"
proof (induction t arbitrary: a)
  case ANil
  then show ?case by simp
next
  case (ANode c hs k v ts)
  have "list_all2 (repr (S \<inter> {..<length h}) h) ts (children (h ! a))"
    using ANode.prems ANode.IH by (auto simp: list_all2_conv_all_nth)
  with ANode.prems show ?case by auto
qed

lemma wf_heap_init: "wf_heap init_heap"
  by (simp add: wf_heap_def init_heap_def nilMap_def)

lemma wf_map_NewMap: "wf_map init_heap NewMap"
proof -
  have "repr UNIV init_heap ANil NewMap" by (simp add: NewMap_def)
  moreover have "tinv 0 ANil" by simp
  ultimately show ?thesis unfolding wf_map_def using wf_heap_init by blast
qed

lemma Set_spec:
  assumes "wf_heap h" "repr UNIV h t m" "tinv 0 t"
  shows "\<exists>h'. Set h m k v = Some (h', length h) \<and> prefix h h' \<and> wf_heap h' \<and>
           repr UNIV h' (set_t t (hashKey k) (hashKey k) k v) (length h) \<and>
           tinv 0 (set_t t (hashKey k) (hashKey k) k v)"
proof -
  have r: "repr (UNIV \<inter> {..<length h}) h t m" using assms(2) by (rule repr_restrict)
  from set_refine [OF r assms(1), of "hashKey k" "hashKey k" k v]
  obtain h' where h': "setLowLevel h m (hashKey k) (hashKey k) k v = Some (h', length h)"
    "prefix h h'"
    "repr (UNIV \<inter> {..<length h} \<union> {length h..<length h'}) h'
       (set_t t (hashKey k) (hashKey k) k v) (length h)"
    by auto
  from h'(3) have "repr UNIV h' (set_t t (hashKey k) (hashKey k) k v) (length h)"
    by (rule repr_mono) simp
  moreover have "wf_heap h'" using assms(1) h'(2) by (rule wf_heap_prefix)
  moreover have "tinv 0 (set_t t (hashKey k) (hashKey k) k v)"
    using tinv_set_t [OF assms(3), of k v] by simp
  ultimately show ?thesis using h' by (auto simp: Set_def)
qed

lemma wf_map_Set:
  assumes "wf_map h m"
  shows "\<exists>h' m'. Set h m k v = Some (h', m') \<and> wf_map h' m'"
proof -
  from assms obtain t where t: "wf_heap h" "repr UNIV h t m" "tinv 0 t"
    by (auto simp: wf_map_def)
  from Set_spec [OF t, of k v] show ?thesis unfolding wf_map_def by blast
qed

lemma hashes_ents: "H \<in> hashes t \<Longrightarrow> \<exists>k v. (H, k, v) \<in> ents t"
  unfolding hashes_def by force

lemma lookup_t_spec:
  assumes "tinv 0 t"
  shows "\<exists>v. lookup_t t H H = (v, H \<in> hashes t)"
proof (cases "H \<in> hashes t")
  case True
  then obtain k v where "(H, k, v) \<in> ents t" using hashes_ents by blast
  from lookup_found [OF assms this] True show ?thesis by simp
next
  case False
  from lookup_not_found [OF assms this] False show ?thesis by simp
qed

lemma Lookup_spec:
  assumes "repr UNIV h t m" "tinv 0 t"
  shows "\<exists>v. Lookup h m k = Some (v, hashKey k \<in> hashes t)"
  using lookup_refine [OF assms(1), of "hashKey k" "hashKey k"] lookup_t_spec [OF assms(2), of "hashKey k"]
  by (auto simp: Lookup_def)

lemma Lookup_absent:
  assumes "repr UNIV h t m" "tinv 0 t" "hashKey k \<notin> hashes t"
  shows "Lookup h m k = Some (None, False)"
  using lookup_refine [OF assms(1), of "hashKey k" "hashKey k"] lookup_not_found [OF assms(2,3)]
  by (simp add: Lookup_def)

lemma Delete_spec:
  assumes "wf_heap h" "repr UNIV h t m" "tinv 0 t"
  shows "\<exists>h' m' t'. Delete h m k = Some (Inr (h', m')) \<and> prefix h h' \<and> wf_heap h' \<and>
           deleteLowLevel h m (hashKey k) (hashKey k) = Some (Inr (h', m', hashKey k \<in> hashes t)) \<and>
           repr UNIV h' t' m' \<and> tinv 0 t' \<and> hashes t' = hashes t - {hashKey k} \<and>
           cnt t' = cnt t - (if hashKey k \<in> hashes t then 1 else 0) \<and>
           (hashKey k \<notin> hashes t \<longrightarrow> h' = h \<and> m' = m)"
proof -
  let ?H = "hashKey k"
  have r: "repr (UNIV \<inter> {..<length h}) h t m" using assms(2) by (rule repr_restrict)
  from delete_t_spec [OF assms(3), of ?H] obtain t' where
    pure: "delete_t t ?H ?H = Inr (t', ?H \<in> hashes t)"
    and t': "hashes t' = hashes t - {?H}" "tinv 0 t'"
      "cnt t' = cnt t - (if ?H \<in> hashes t then 1 else 0)"
    by auto
  from deleteLowLevel_refine [OF r assms(1), of ?H ?H] pure
  obtain h' m' where
    low: "deleteLowLevel h m ?H ?H = Some (Inr (h', m', ?H \<in> hashes t))"
    and pre: "prefix h h'"
    and rep: "repr (UNIV \<inter> {..<length h} \<union> {length h..<length h'}) h' t' m'"
    and same: "?H \<notin> hashes t \<longrightarrow> h' = h \<and> m' = m"
    by auto
  have "Delete h m k = Some (Inr (h', m'))" by (simp add: Delete_def low)
  moreover have "repr UNIV h' t' m'" using rep by (rule repr_mono) simp
  moreover have "wf_heap h'" using assms(1) pre by (rule wf_heap_prefix)
  ultimately show ?thesis using pre low t' same by blast
qed

lemma wf_map_Delete:
  assumes "wf_map h m"
  shows "\<exists>h' m'. Delete h m k = Some (Inr (h', m')) \<and> wf_map h' m'"
proof -
  from assms obtain t where t: "wf_heap h" "repr UNIV h t m" "tinv 0 t"
    by (auto simp: wf_map_def)
  from Delete_spec [OF t, of k] show ?thesis unfolding wf_map_def by blast
qed

lemma repr_prefix:
  assumes "repr UNIV h t a" "prefix h h'"
  shows "repr UNIV h' t a"
proof -
  have "repr (UNIV \<inter> {..<length h}) h t a" using assms(1) by (rule repr_restrict)
  then have "repr (UNIV \<inter> {..<length h}) h' t a"
  proof (rule repr_frame)
    fix x assume "x \<in> UNIV \<inter> {..<length h}" "x < length h"
    then show "x < length h' \<and> h' ! x = h ! x"
      using prefix_nth [OF assms(2), of x] prefix_length_le [OF assms(2)] by simp
  qed
  then show ?thesis by (rule repr_mono) simp
qed

lemma wf_map_prefix: "wf_map h m \<Longrightarrow> prefix h h' \<Longrightarrow> wf_map h' m"
  unfolding wf_map_def using repr_prefix wf_heap_prefix by blast

lemma Set_size:
  assumes "tinv 0 t"
  shows "cnt (set_t t (hashKey k) (hashKey k) k v) = cnt t + (if hashKey k \<in> hashes t then 0 else 1)"
    and "hashes (set_t t (hashKey k) (hashKey k) k v) = insert (hashKey k) (hashes t)"
  using cnt_set_t [OF assms, of "hashKey k" k v] hashes_set_t [OF assms] by simp_all

lemma Lookup_entry:
  assumes "repr UNIV h t m" "tinv 0 t" "(k, v) \<in> set (entries_t t)"
  shows "Lookup h m k = Some (v, True)"
proof -
  have "(hashKey k, k, v) \<in> ents t" using assms(3) by (subst ents_entries [OF assms(2)]) force
  from lookup_found [OF assms(2) this] lookup_refine [OF assms(1), of "hashKey k" "hashKey k"]
  show ?thesis by (simp add: Lookup_def)
qed

lemma Lookup_found_entry:
  assumes "repr UNIV h t m" "tinv 0 t" "Lookup h m k = Some (v, True)"
  shows "\<exists>k'. (k', v) \<in> set (entries_t t) \<and> hashKey k' = hashKey k"
proof -
  from Lookup_spec [OF assms(1,2), of k] assms(3) have "hashKey k \<in> hashes t" by auto
  then obtain k' v' where e: "(hashKey k, k', v') \<in> ents t" using hashes_ents by blast
  from lookup_found [OF assms(2) e] lookup_refine [OF assms(1), of "hashKey k" "hashKey k"] assms(3)
  have "v' = v" by (simp add: Lookup_def)
  moreover from e have "(k', v') \<in> set (entries_t t) \<and> hashKey k' = hashKey k"
    by (subst (asm) ents_entries [OF assms(2)]) auto
  ultimately show ?thesis by blast
qed

lemma Delete_removes_key:
  assumes "wf_map h m"
  shows "\<exists>h' m'. Delete h m k = Some (Inr (h', m')) \<and> Lookup h' m' k = Some (None, False)"
proof -
  from assms obtain t where t: "wf_heap h" "repr UNIV h t m" "tinv 0 t"
    by (auto simp: wf_map_def)
  from Delete_spec [OF t, of k] obtain h' m' t' where
    d: "Delete h m k = Some (Inr (h', m'))" "repr UNIV h' t' m'" "tinv 0 t'"
      "hashes t' = hashes t - {hashKey k}"
    by blast
  have "hashKey k \<notin> hashes t'" using d(4) by simp
  from Lookup_absent [OF d(2,3) this] d(1) show ?thesis by blast
qed

text \<open>A sequence of \<open>Set\<close> operations, each applied to the map the previous one returned.\<close>

fun SetAll :: "'v heap \<Rightarrow> addr \<Rightarrow> (string \<times> 'v any) list \<Rightarrow> ('v heap \<times> addr) option" where
  "SetAll h m [] = Some (h, m)"
| "SetAll h m ((k, v) # kvs) =
     (case Set h m k v of None \<Rightarrow> None | Some (h', m') \<Rightarrow> SetAll h' m' kvs)"

lemma SetAll_spec:
  assumes "wf_heap h" "repr UNIV h t m" "tinv 0 t"
    and "distinct (map (\<lambda>kv. hashKey (fst kv)) kvs)"
    and "\<forall>kv\<in>set kvs. hashKey (fst kv) \<notin> hashes t"
  shows "\<exists>h' m' t'. SetAll h m kvs = Some (h', m') \<and> wf_heap h' \<and> repr UNIV h' t' m' \<and>
           tinv 0 t' \<and> cnt t' = cnt t + int (length kvs)"
  using assms
proof (induction kvs arbitrary: h m t)
  case Nil
  then show ?case by auto
next
  case (Cons kv kvs)
  obtain k v where kv: "kv = (k, v)" by (cases kv)
  let ?t1 = "set_t t (hashKey k) (hashKey k) k v"
  from Set_spec [OF Cons.prems(1-3), of k v] obtain h1 where
    s: "Set h m k v = Some (h1, length h)" and wf1: "wf_heap h1"
    and r1: "repr UNIV h1 ?t1 (length h)" and i1: "tinv 0 ?t1"
    by blast
  have new: "hashKey k \<notin> hashes t" using Cons.prems(5) kv by simp
  have c1: "cnt ?t1 = cnt t + 1" using Set_size(1) [OF Cons.prems(3), of k v] new by simp
  have h1: "hashes ?t1 = insert (hashKey k) (hashes t)" using Set_size(2) [OF Cons.prems(3)] .
  have d: "distinct (map (\<lambda>kv. hashKey (fst kv)) kvs)" using Cons.prems(4) by simp
  have n: "\<forall>kv\<in>set kvs. hashKey (fst kv) \<notin> hashes ?t1"
    using Cons.prems(4,5) kv unfolding h1 by (force simp: image_iff)
  from Cons.IH [OF wf1 r1 i1 d n] obtain h' m' t' where
    "SetAll h1 (length h) kvs = Some (h', m')" "wf_heap h'" "repr UNIV h' t' m'" "tinv 0 t'"
    "cnt t' = cnt ?t1 + int (length kvs)"
    by blast
  with s c1 kv show ?case by auto
qed

text \<open>A sequence of \<open>Delete\<close> operations, each applied to the map the previous one returned.\<close>

fun DeleteAll :: "'v heap \<Rightarrow> addr \<Rightarrow> string list \<Rightarrow> (panic + 'v heap \<times> addr) option" where
  "DeleteAll h m [] = Some (Inr (h, m))"
| "DeleteAll h m (k # ks) =
     (case Delete h m k of
        None \<Rightarrow> None
      | Some (Inl e) \<Rightarrow> Some (Inl e)
      | Some (Inr (h', m')) \<Rightarrow> DeleteAll h' m' ks)"

lemma hashes_empty: "hashes t = {} \<Longrightarrow> t = ANil"
  by (cases t) auto

lemma cnt_zero: "tinv d t \<Longrightarrow> cnt t = 0 \<Longrightarrow> t = ANil"
  using cnt_pos [of d t] by fastforce

lemma DeleteAll_spec:
  assumes "wf_heap h" "repr UNIV h t m" "tinv 0 t" "hashes t \<subseteq> hashKey ` set ks"
  shows "\<exists>h'. DeleteAll h m ks = Some (Inr (h', nilMap))"
  using assms
proof (induction ks arbitrary: h m t)
  case Nil
  then have "t = ANil" using hashes_empty by auto
  with Nil.prems(2) show ?case by simp
next
  case (Cons k ks)
  from Delete_spec [OF Cons.prems(1-3), of k] obtain h' m' t' where
    d: "Delete h m k = Some (Inr (h', m'))" "wf_heap h'" "repr UNIV h' t' m'" "tinv 0 t'"
      "hashes t' = hashes t - {hashKey k}"
    by blast
  have "hashes t' \<subseteq> hashKey ` set ks" using d(5) Cons.prems(4) by auto
  from Cons.IH [OF d(2-4) this] d(1) show ?case by simp
qed

subsection \<open>The count invariant and reachable handles\<close>

text \<open>The count invariant alone: eight children, and a count of 1 plus the children's.\<close>

fun counted :: "'v atree \<Rightarrow> bool" where
  "counted ANil = True"
| "counted (ANode c hs k v ts) =
     (length ts = childCount \<and> c = sum_list (map cnt ts) + 1 \<and> (\<forall>t\<in>set ts. counted t))"

definition wf_counts :: "'v heap \<Rightarrow> addr \<Rightarrow> bool" where
  "wf_counts h m = (wf_heap h \<and> (\<exists>t. repr UNIV h t m \<and> counted t))"

lemma tinv_counted: "tinv d t \<Longrightarrow> counted t"
proof (induction t arbitrary: d)
  case ANil
  then show ?case by simp
next
  case (ANode c hs k v ts)
  have "\<forall>t\<in>set ts. counted t" using ANode.IH tinv_nodeD(1) [OF ANode.prems] by blast
  then show ?case using tinv_node(1,2) [OF ANode.prems] by simp
qed

lemma wf_map_counts: "wf_map h m \<Longrightarrow> wf_counts h m"
  unfolding wf_map_def wf_counts_def using tinv_counted by blast

lemma counted_nonneg: "counted t \<Longrightarrow> 0 \<le> cnt t"
proof (induction t)
  case ANil
  then show ?case by simp
next
  case (ANode c hs k v ts)
  have "0 \<le> sum_list (map cnt ts)" by (rule sum_list_nonneg) (use ANode in auto)
  with ANode.prems show ?case by simp
qed

lemma counted_pos: "counted t \<Longrightarrow> t \<noteq> ANil \<Longrightarrow> 1 \<le> cnt t"
proof (cases t)
  case ANil
  assume "t \<noteq> ANil" with ANil show ?thesis by simp
next
  case (ANode c hs k v ts)
  assume i: "counted t"
  have "0 \<le> sum_list (map cnt ts)"
    by (rule sum_list_nonneg) (use i ANode counted_nonneg in auto)
  with i ANode show ?thesis by simp
qed

lemma counted_leaf_iff:
  assumes "counted (ANode c hs k v ts)"
  shows "(c = 1) = (\<forall>t\<in>set ts. t = ANil)"
proof
  assume "c = 1"
  with assms have z: "sum_list (map cnt ts) = 0" by simp
  show "\<forall>t\<in>set ts. t = ANil"
  proof
    fix t assume t: "t \<in> set ts"
    have "\<forall>x\<in>set (map cnt ts). 0 \<le> x" using assms counted_nonneg by auto
    then have "cnt t \<le> sum_list (map cnt ts)" using t by (intro member_le_sum_list) auto
    with z have "cnt t \<le> 0" by simp
    moreover have "counted t" using assms t by simp
    ultimately show "t = ANil" using counted_pos [of t] by fastforce
  qed
next
  assume "\<forall>t\<in>set ts. t = ANil"
  then have "\<forall>t\<in>set ts. cnt t = 0" by auto
  then have "sum_list (map cnt ts) = 0" by (induction ts) auto
  with assms show "c = 1" by simp
qed

lemma counted_deleteLeftmost:
  "counted t \<Longrightarrow> t \<noteq> ANil \<Longrightarrow> \<exists>r t'. deleteLeftmost_t t = Inr (r, t')"
proof (induction t)
  case ANil
  then show ?case by simp
next
  case (ANode c hs k v ts)
  show ?case
  proof (cases "c = 1")
    case True
    then show ?thesis by simp
  next
    case False
    with counted_leaf_iff [OF ANode.prems(1)] have "firstChild_t ts \<noteq> None"
      by (simp add: firstChild_t_None)
    then obtain i where fc: "firstChild_t ts = Some i" by auto
    from firstChild_t_Some [OF fc] have i: "i < length ts" "ts ! i \<noteq> ANil" by auto
    then have mem: "ts ! i \<in> set ts" by simp
    then have "counted (ts ! i)" using ANode.prems(1) by simp
    from ANode.IH [OF mem this i(2)] obtain r t' where "deleteLeftmost_t (ts ! i) = Inr (r, t')"
      by blast
    with False fc i show ?thesis by (simp add: Let_def)
  qed
qed

lemma counted_delete: "counted t \<Longrightarrow> \<exists>t' found. delete_t t ph H = Inr (t', found)"
proof (induction t arbitrary: ph)
  case ANil
  then show ?case by auto
next
  case (ANode c hs k v ts)
  from ANode.prems have len: "length ts = childCount" by simp
  show ?case
  proof (cases "H = hs")
    case False
    let ?i = "unat (ph mod 8)"
    have i: "?i < length ts" using len digit_less [of ph] by (simp add: childCount_def)
    then have mem: "ts ! ?i \<in> set ts" by simp
    then have "counted (ts ! ?i)" using ANode.prems by simp
    from ANode.IH [OF mem this, of "drop_bit 3 ph"] obtain t' found where
      "delete_t (ts ! ?i) (drop_bit 3 ph) H = Inr (t', found)" by blast
    with False i show ?thesis by (auto simp: Let_def)
  next
    case True
    show ?thesis
    proof (cases "c = 1")
      case leaf: True
      with True show ?thesis by auto
    next
      case inner: False
      have nn: "\<forall>t\<in>set ts. 0 \<le> cnt t" using ANode.prems counted_nonneg by auto
      have ne: "ts \<noteq> []" using len by (auto simp: childCount_def)
      from findLargest_t_spec [OF nn ne] obtain i where
        i: "i < length ts" "findLargest_t ts = (int i, cnt (ts ! i))"
        "\<forall>j<length ts. cnt (ts ! j) \<le> cnt (ts ! i)" by blast
      have notnil: "ts ! i \<noteq> ANil"
      proof
        assume nil: "ts ! i = ANil"
        have "t = ANil" if "t \<in> set ts" for t
        proof -
          from that obtain j where j: "j < length ts" "ts ! j = t"
            by (auto simp: in_set_conv_nth)
          with i(3) nil have "cnt t \<le> 0" by auto
          moreover have "counted t" using ANode.prems that by simp
          ultimately show ?thesis using counted_pos [of t] by fastforce
        qed
        with counted_leaf_iff [OF ANode.prems] inner show False by simp
      qed
      have "counted (ts ! i)" using ANode.prems i(1) by simp
      from counted_deleteLeftmost [OF this notnil] obtain r t' where
        dl: "deleteLeftmost_t (ts ! i) = Inr (r, t')" by blast
      from deleteLeftmost_t_not_nil [OF dl] obtain rh rk rv rts where
        "r = ANode 1 rh rk rv rts" by blast
      with True inner i(1,2) dl show ?thesis by (auto simp: Let_def)
    qed
  qed
qed

text \<open>
  The handles a program can hold: \<open>NewMap()\<close> in the initial heap, and whatever \<open>Set\<close> and
  \<open>Delete\<close> return for a handle it holds; handles obtained earlier stay valid in the later
  heaps.
\<close>

inductive reachable :: "'v heap \<Rightarrow> addr \<Rightarrow> bool" where
  new: "reachable init_heap NewMap"
| set: "reachable h m \<Longrightarrow> Set h m k v = Some (h', m') \<Longrightarrow> reachable h' m'"
| delete: "reachable h m \<Longrightarrow> Delete h m k = Some (Inr (h', m')) \<Longrightarrow> reachable h' m'"
| keep_set: "reachable h m0 \<Longrightarrow> reachable h m \<Longrightarrow> Set h m k v = Some (h', m') \<Longrightarrow> reachable h' m0"
| keep_delete:
    "reachable h m0 \<Longrightarrow> reachable h m \<Longrightarrow> Delete h m k = Some (Inr (h', m')) \<Longrightarrow> reachable h' m0"

text \<open>The nodes other than the sentinel that a handle reaches through child pointers.\<close>

inductive_set nodes :: "'v heap \<Rightarrow> addr \<Rightarrow> addr set" for h :: "'v heap" and m :: addr where
  root: "m \<noteq> nilMap \<Longrightarrow> m \<in> nodes h m"
| child: "a \<in> nodes h m \<Longrightarrow> c \<in> set (children (h ! a)) \<Longrightarrow> c \<noteq> nilMap \<Longrightarrow> c \<in> nodes h m"

lemma Set_prefix:
  assumes "wf_map h m" "Set h m k v = Some (h', m')"
  shows "prefix h h'" "wf_map h' m'"
proof -
  from assms(1) obtain t where t: "wf_heap h" "repr UNIV h t m" "tinv 0 t"
    by (auto simp: wf_map_def)
  from Set_spec [OF t, of k v] assms(2) show "prefix h h'" "wf_map h' m'"
    unfolding wf_map_def by auto
qed

lemma Delete_prefix:
  assumes "wf_map h m" "Delete h m k = Some (Inr (h', m'))"
  shows "prefix h h'" "wf_map h' m'"
proof -
  from assms(1) obtain t where t: "wf_heap h" "repr UNIV h t m" "tinv 0 t"
    by (auto simp: wf_map_def)
  from Delete_spec [OF t, of k] obtain h1 m1 t' where
    d: "Delete h m k = Some (Inr (h1, m1))" "prefix h h1" "wf_heap h1" "repr UNIV h1 t' m1" "tinv 0 t'"
    by blast
  with assms(2) show "prefix h h'" "wf_map h' m'"
    unfolding wf_map_def by auto
qed

lemma reachable_wf_map: "reachable h m \<Longrightarrow> wf_map h m"
proof (induction rule: reachable.induct)
  case new
  show ?case by (rule wf_map_NewMap)
next
  case (set h m k v h' m')
  then show ?case using Set_prefix(2) by blast
next
  case (delete h m k h' m')
  then show ?case using Delete_prefix(2) by blast
next
  case (keep_set h m0 m k v h' m')
  then show ?case using Set_prefix(1) wf_map_prefix by blast
next
  case (keep_delete h m0 m k h' m')
  then show ?case using Delete_prefix(1) wf_map_prefix by blast
qed

lemma nodes_not_nil: "a \<in> nodes h m \<Longrightarrow> a \<noteq> nilMap"
  by (induction rule: nodes.induct) auto

lemma nodes_counts: "a \<in> nodes h m \<Longrightarrow> wf_counts h m \<Longrightarrow> wf_counts h a"
proof (induction rule: nodes.induct)
  case root
  then show ?case by simp
next
  case (child a c)
  from child.IH [OF child.prems] obtain t where
    t: "wf_heap h" "repr UNIV h t a" "counted t" by (auto simp: wf_counts_def)
  from nodes_not_nil [OF child.hyps(1)] repr_nil_iff [OF t(2)]
  obtain n hs k v ts where n: "t = ANode n hs k v ts" by (cases t) auto
  from t(2) n have cs: "list_all2 (repr UNIV h) ts (children (h ! a))" by simp
  from child.hyps(2) obtain j where j: "j < length (children (h ! a))" "children (h ! a) ! j = c"
    by (auto simp: in_set_conv_nth)
  then have jt: "j < length ts" using reprs_length [OF cs] by simp
  from reprs_nth [OF cs jt] j(2) have "repr UNIV h (ts ! j) c" by simp
  moreover have "counted (ts ! j)" using t(3) n jt by simp
  ultimately show ?case using t(1) unfolding wf_counts_def by blast
qed

lemma reprs_counts:
  "list_all2 (repr S h) ts cs \<Longrightarrow> wf_heap h \<Longrightarrow> map cnt ts = map (\<lambda>c. count (h ! c)) cs"
proof (induction ts cs rule: list_all2_induct)
  case Nil
  then show ?case by simp
next
  case (Cons t ts c cs)
  then show ?case using repr_Size [of h S t c] by (simp add: Size_def)
qed

lemma node_counts:
  assumes "wf_counts h a" "a \<noteq> nilMap"
  shows "length (children (h ! a)) = childCount"
    and "count (h ! a) = 1 + sum_list (map (\<lambda>c. count (h ! c)) (children (h ! a)))"
    and "(count (h ! a) = 1) = (\<forall>c\<in>set (children (h ! a)). c = nilMap)"
proof -
  from assms(1) obtain t where t: "wf_heap h" "repr UNIV h t a" "counted t"
    by (auto simp: wf_counts_def)
  from assms(2) repr_nil_iff [OF t(2)] obtain n hs k v ts where n: "t = ANode n hs k v ts"
    by (cases t) auto
  from t(2) n have c: "count (h ! a) = n" and len: "length ts = childCount"
    and cs: "list_all2 (repr UNIV h) ts (children (h ! a))" by auto
  show "length (children (h ! a)) = childCount" using reprs_length [OF cs] len by simp
  show "count (h ! a) = 1 + sum_list (map (\<lambda>c. count (h ! c)) (children (h ! a)))"
    using t(3) n c reprs_counts [OF cs t(1)] by simp
  have "(\<forall>t\<in>set ts. t = ANil) = (\<forall>c\<in>set (children (h ! a)). c = nilMap)"
  proof -
    have "(ts ! j = ANil) = (children (h ! a) ! j = nilMap)" if "j < length ts" for j
      using repr_nil_iff [OF reprs_nth [OF cs that]] by simp
    then show ?thesis using reprs_length [OF cs] by (simp add: all_set_conv_all_nth)
  qed
  then show "(count (h ! a) = 1) = (\<forall>c\<in>set (children (h ! a)). c = nilMap)"
    using counted_leaf_iff [OF t(3) [unfolded n]] c by simp
qed

section \<open>Example maps\<close>

text \<open>
  The heaps after \<open>NewMap().Set("a", 1)\<close>, after a further \<open>Set("b", 2)\<close>, and after
  \<open>Delete("a")\<close> on that map. Handle 1 is the map with the key a, handle 2 the map with a
  and b, handle 4 the map with b alone.
\<close>

definition heap1 :: "nat heap" where
  "heap1 = [nilTree,
     \<lparr>count = 1, hash = 12638187200555641996, key = ''a'', val = Some 1,
       children = [0, 0, 0, 0, 0, 0, 0, 0]\<rparr>]"

definition heap2 :: "nat heap" where
  "heap2 = heap1 @
    [\<lparr>count = 2, hash = 12638187200555641996, key = ''a'', val = Some 1,
       children = [0, 0, 0, 0, 0, 3, 0, 0]\<rparr>,
     \<lparr>count = 1, hash = 12638190499090526629, key = ''b'', val = Some 2,
       children = [0, 0, 0, 0, 0, 0, 0, 0]\<rparr>]"

lemma Set_heap1: "Set init_heap NewMap ''a'' (Some 1) = Some (heap1, 1)"
  by code_simp

lemma Set_heap2: "Set heap1 1 ''b'' (Some 2) = Some (heap2, 2)"
  by code_simp

lemma wf_map_heap1: "wf_map heap1 1"
  using wf_map_Set [OF wf_map_NewMap, of "''a''" "Some (1::nat)"] unfolding Set_heap1 by blast

lemma wf_map_heap2: "wf_map heap2 2"
  using wf_map_Set [OF wf_map_heap1, of "''b''" "Some 2"] unfolding Set_heap2 by blast

definition heap3 :: "nat heap" where
  "heap3 = heap2 @
    [\<lparr>count = 1, hash = 12638190499090526629, key = ''b'', val = Some 2,
       children = [0, 0, 0, 0, 0, 0, 0, 0]\<rparr>]"

lemma hash_a: "hashKey ''a'' = 12638187200555641996"
  by code_simp

lemma upt8: "[0..<8] = [0, 1, 2, 3, 4, 5, 6, 7]"
  by code_simp

lemma heap2_nth:
  "heap2 ! 2 = \<lparr>count = 2, hash = 12638187200555641996, key = ''a'', val = Some 1,
       children = [0, 0, 0, 0, 0, 3, 0, 0]\<rparr>"
  "heap2 ! 3 = \<lparr>count = 1, hash = 12638190499090526629, key = ''b'', val = Some 2,
       children = [0, 0, 0, 0, 0, 0, 0, 0]\<rparr>"
  "heap2 ! 0 = nilTree" "length heap2 = 4"
  by (simp_all add: heap2_def heap1_def)

lemma deleteLeftmost_heap2: "deleteLeftmost heap2 3 = Some (Inr (heap2, 3, 0))"
  by (subst deleteLeftmost.simps) (simp add: isLeaf_def Size_def heap2_nth nilMap_def)

lemma findLargest_heap2: "findLargest heap2 [0, 0, 0, 0, 0, 3, 0, 0] = (5, 1)"
  by (simp add: findLargest_def upt8 Size_def heap2_nth nilTree_def)

lemma Delete_heap3: "Delete heap2 2 ''a'' = Some (Inr (heap3, 4))"
  unfolding Delete_def hash_a
  apply (subst deleteLowLevel.simps)
  apply (simp add: IsNil_def nilMap_def isLeaf_def Size_def heap2_nth findLargest_heap2 deleteLeftmost_heap2 clone_def)
  apply (simp add: childCount_def upt8 setChild_def recalculateCount_def Size_def nilTree_def
      heap2_nth heap3_def nth_append list_update_append)
  done

lemma wf_map_heap2_old: "wf_map heap2 1"
  by (rule wf_map_prefix [OF wf_map_heap1]) (simp add: heap2_def)

text \<open>
  Two distinct keys with the same hash: neither byte is valid UTF-8, so the loop of
  \<open>hashKey\<close> reads U+FFFD from both. \<open>heap_c\<close> is the heap after setting both in turn.
\<close>

definition collide1 :: string where "collide1 = [CHR 0xFF]"
definition collide2 :: string where "collide2 = [CHR 0xFE]"

lemma collide_hash: "hashKey collide1 = hashKey collide2"
  by code_simp

lemma collide_neq: "collide1 \<noteq> collide2"
  by code_simp


definition heap_c :: "nat heap" where
  "heap_c = [nilTree,
    \<lparr>count = 1, hash = 12690422798988690184, key = collide1, val = Some 1,
       children = [0, 0, 0, 0, 0, 0, 0, 0]\<rparr>,
    \<lparr>count = 1, hash = 12690422798988690184, key = collide1, val = Some 2,
       children = [0, 0, 0, 0, 0, 0, 0, 0]\<rparr>]"

lemma SetAll_collide:
  "SetAll init_heap NewMap [(collide1, Some 1), (collide2, Some 2)] = Some (heap_c, 2)"
  by code_simp

lemma heap1_nth:
  "heap1 ! 1 = \<lparr>count = 1, hash = 12638187200555641996, key = ''a'', val = Some 1,
       children = [0, 0, 0, 0, 0, 0, 0, 0]\<rparr>"
  "heap1 ! Suc 0 = \<lparr>count = 1, hash = 12638187200555641996, key = ''a'', val = Some 1,
       children = [0, 0, 0, 0, 0, 0, 0, 0]\<rparr>"
  "heap1 ! 0 = nilTree" "length heap1 = 2"
  by (simp_all add: heap1_def)

lemma Delete_heap1: "Delete heap1 1 ''a'' = Some (Inr (heap1, 0))"
  unfolding Delete_def hash_a
  by (subst deleteLowLevel.simps) (simp add: IsNil_def nilMap_def isLeaf_def Size_def heap1_nth)

lemma reachable_heap2: "reachable heap2 2"
proof -
  have "reachable heap1 1" using reachable.new Set_heap1 by (rule reachable.set)
  then show ?thesis using Set_heap2 by (rule reachable.set)
qed

section \<open>The claims\<close>

text \<open>
  C1. For every well-formed map \<open>m\<close>, every key \<open>k\<close> and every value \<open>v\<close>, \<open>Set\<close> returns
  a map on which \<open>Lookup(k)\<close> returns \<open>(v, true)\<close>.
\<close>

theorem Set_then_Lookup:
  assumes "wf_map h m"
  shows "\<exists>h' m'. Set h m k v = Some (h', m') \<and> Lookup h' m' k = Some (v, True)"
proof -
  from assms obtain t where t: "wf_heap h" "repr UNIV h t m" "tinv 0 t"
    by (auto simp: wf_map_def)
  let ?t' = "set_t t (hashKey k) (hashKey k) k v"
  from Set_spec [OF t, of k v] obtain h' where
    h': "Set h m k v = Some (h', length h)" "repr UNIV h' ?t' (length h)"
    by blast
  have "Lookup h' (length h) k = Some (lookup_t ?t' (hashKey k) (hashKey k))"
    unfolding Lookup_def using h'(2) by (rule lookup_refine)
  also have "lookup_t ?t' (hashKey k) (hashKey k) = (v, True)"
    using t(3) by (rule lookup_set_same)
  finally show ?thesis using h'(1) by blast
qed

theorem Set_then_Lookup_witness:
  "wf_map heap2 2 \<and>
   (\<exists>h' m'. Set heap2 2 ''c'' (Some 3) = Some (h', m') \<and>
      Lookup h' m' ''c'' = Some (Some 3, True))"
  using Set_then_Lookup [OF wf_map_heap2, of "''c''" "Some 3"] wf_map_heap2 by simp

text \<open>
  C2. For every well-formed map \<open>m\<close> and every key \<open>k\<close>, \<open>Lookup(k)\<close> on the map returned
  by \<open>Delete(k)\<close> reports not-found. The statement covers every path of the deletion; the
  witness deletes the key of a root that is not a leaf, so that the entry of its child is
  promoted into the root's position.
\<close>

theorem Delete_then_Lookup:
  assumes "wf_map h m"
  shows "\<exists>h' m'. Delete h m k = Some (Inr (h', m')) \<and> Lookup h' m' k = Some (None, False)"
proof -
  from assms obtain t where t: "wf_heap h" "repr UNIV h t m" "tinv 0 t"
    by (auto simp: wf_map_def)
  from Delete_spec [OF t, of k] obtain h' m' t' where
    d: "Delete h m k = Some (Inr (h', m'))" "repr UNIV h' t' m'" "tinv 0 t'"
      "hashes t' = hashes t - {hashKey k}"
    by blast
  have "hashKey k \<notin> hashes t'" using d(4) by simp
  from Lookup_absent [OF d(2,3) this] d(1) show ?thesis by blast
qed

theorem Delete_then_Lookup_witness:
  "wf_map heap2 2 \<and> hash (heap2 ! 2) = hashKey ''a'' \<and> \<not> isLeaf heap2 2 \<and>
   (\<exists>h' m'. Delete heap2 2 ''a'' = Some (Inr (h', m')) \<and>
      Lookup h' m' ''a'' = Some (None, False))"
proof -
  have "hash (heap2 ! 2) = hashKey ''a''" by code_simp
  moreover have "\<not> isLeaf heap2 2" by code_simp
  ultimately show ?thesis
    using Delete_then_Lookup [OF wf_map_heap2, of "''a''"] wf_map_heap2 by blast
qed

text \<open>
  C3. Deriving \<open>B\<close> from a well-formed map \<open>A\<close> by \<open>Set\<close> or \<open>Delete\<close> only extends the
  heap: every node allocated before is unchanged. Hence for every well-formed handle \<open>X\<close>
  of the old heap (\<open>A\<close> itself among them) \<open>Lookup\<close> on any key, \<open>Size\<close>, \<open>Keys\<close> and
  \<open>ForEach\<close> give the same results after the derivation as before.
\<close>

theorem old_versions_unchanged:
  assumes "wf_map h A" "wf_map h X"
    and "Set h A k v = Some (h', B) \<or> Delete h A k = Some (Inr (h', B))"
  shows "prefix h h' \<and> (\<forall>a<length h. h' ! a = h ! a) \<and>
         (\<forall>k'. Lookup h' X k' = Lookup h X k') \<and> Size h' X = Size h X \<and>
         Keys h' X = Keys h X \<and> (\<forall>f s. ForEach h' X f s = ForEach h X f s)"
proof -
  from assms(1) obtain t where t: "wf_heap h" "repr UNIV h t A" "tinv 0 t"
    by (auto simp: wf_map_def)
  from assms(2) obtain u where u: "repr UNIV h u X" "tinv 0 u"
    by (auto simp: wf_map_def)
  have pre: "prefix h h'"
    using assms(3)
  proof
    assume s: "Set h A k v = Some (h', B)"
    from Set_spec [OF t, of k v] obtain h1 where
      "Set h A k v = Some (h1, length h)" "prefix h h1" by blast
    with s show ?thesis by simp
  next
    assume d: "Delete h A k = Some (Inr (h', B))"
    from Delete_spec [OF t, of k] obtain h1 m1 where
      "Delete h A k = Some (Inr (h1, m1))" "prefix h h1" by blast
    with d show ?thesis by simp
  qed
  have wf': "wf_heap h'" using t(1) pre by (rule wf_heap_prefix)
  have u': "repr UNIV h' u X" using u(1) pre by (rule repr_prefix)
  have 1: "\<forall>a<length h. h' ! a = h ! a" using prefix_nth [OF pre] by blast
  have 2: "\<forall>k'. Lookup h' X k' = Lookup h X k'"
    by (simp add: Lookup_def lookup_refine [OF u(1)] lookup_refine [OF u'])
  have 3: "Size h' X = Size h X" using repr_Size [OF t(1) u(1)] repr_Size [OF wf' u'] by simp
  have 4: "Keys h' X = Keys h X"
    using Keys_refine [OF u(1) t(1) length_entries [OF u(2)]]
      Keys_refine [OF u' wf' length_entries [OF u(2)]] by simp
  have 5: "\<forall>f s. ForEach h' X f s = ForEach h X f s"
    by (simp add: ForEach_refine [OF u(1)] ForEach_refine [OF u'])
  from pre 1 2 3 4 5 show ?thesis by blast
qed

theorem old_versions_unchanged_witness:
  "wf_map heap2 2 \<and> Delete heap2 2 ''a'' = Some (Inr (heap3, 4)) \<and>
   Lookup heap3 2 ''a'' = Some (Some 1, True) \<and>
   prefix heap2 heap3 \<and> heap3 ! 2 = heap2 ! 2 \<and>
   (\<forall>k'. Lookup heap3 2 k' = Lookup heap2 2 k') \<and> Size heap3 2 = Size heap2 2 \<and>
   Keys heap3 2 = Keys heap2 2 \<and>
   (\<forall>f s. ForEach heap3 2 (f :: string \<Rightarrow> nat any \<Rightarrow> nat \<Rightarrow> panic + nat) s = ForEach heap2 2 f s)"
proof -
  have d: "Set heap2 2 ''a'' None = Some (heap3, 4) \<or> Delete heap2 2 ''a'' = Some (Inr (heap3, 4))"
    using Delete_heap3 by simp
  have l: "Lookup heap3 2 ''a'' = Some (Some 1, True)" by code_simp
  note T = old_versions_unchanged [OF wf_map_heap2 wf_map_heap2 d, where ?'b = nat]
  from T have n: "heap3 ! 2 = heap2 ! 2" by (simp add: heap2_nth)
  show ?thesis
    apply (intro conjI)
            apply (rule wf_map_heap2)
           apply (rule Delete_heap3)
          apply (rule l)
         apply (rule T [THEN conjunct1])
        apply (rule n)
       apply (rule T [THEN conjunct2, THEN conjunct2, THEN conjunct1])
      apply (rule T [THEN conjunct2, THEN conjunct2, THEN conjunct2, THEN conjunct1])
     apply (rule T [THEN conjunct2, THEN conjunct2, THEN conjunct2, THEN conjunct2, THEN conjunct1])
    apply (rule T [THEN conjunct2, THEN conjunct2, THEN conjunct2, THEN conjunct2, THEN conjunct2])
    done
qed

text \<open>
  C4, as stated: after any sequence of \<open>N\<close> Set operations with pairwise distinct keys,
  starting from the empty map, \<open>Size()\<close> returns \<open>N\<close>. This fails for two distinct keys
  with the same hash: the second Set overwrites the entry of the first.
\<close>

theorem Size_distinct_keys_counterexample:
  "\<not> (distinct (map fst [(collide1, Some (1::nat)), (collide2, Some 2)]) \<longrightarrow>
      (\<exists>h' m'. SetAll init_heap NewMap [(collide1, Some (1::nat)), (collide2, Some 2)] = Some (h', m') \<and>
         Size h' m' = int (length [(collide1, Some (1::nat)), (collide2, Some 2)])))"
proof -
  have "Size heap_c 2 = 1" by code_simp
  then show ?thesis unfolding SetAll_collide using collide_neq by simp
qed

text \<open>
  C4, amended: starting from the empty map, after \<open>N\<close> Set operations whose keys have
  pairwise distinct hashes, \<open>Size()\<close> returns \<open>N\<close>; deleting a key that \<open>Lookup\<close> finds
  decreases \<open>Size()\<close> by exactly 1; deleting a key that \<open>Lookup\<close> does not find leaves
  \<open>Size()\<close> unchanged; and Set of a key that \<open>Lookup\<close> finds leaves \<open>Size()\<close> unchanged.
\<close>

theorem Size_accounting:
  "(wf_heap h0 \<longrightarrow> distinct (map (\<lambda>kv. hashKey (fst kv)) kvs) \<longrightarrow>
      (\<exists>h' m'. SetAll h0 NewMap kvs = Some (h', m') \<and> Size h' m' = int (length kvs))) \<and>
   (wf_map h m \<longrightarrow> Lookup h m k1 = Some (v1, True) \<longrightarrow>
      (\<exists>h' m'. Delete h m k1 = Some (Inr (h', m')) \<and> Size h' m' = Size h m - 1)) \<and>
   (wf_map h m \<longrightarrow> Lookup h m k2 = Some (v2, False) \<longrightarrow>
      (\<exists>h' m'. Delete h m k2 = Some (Inr (h', m')) \<and> Size h' m' = Size h m)) \<and>
   (wf_map h m \<longrightarrow> Lookup h m k3 = Some (v3, True) \<longrightarrow>
      (\<exists>h' m'. Set h m k3 v = Some (h', m') \<and> Size h' m' = Size h m))"
proof (intro conjI impI)
  assume wf: "wf_heap h0" and d: "distinct (map (\<lambda>kv. hashKey (fst kv)) kvs)"
  have r: "repr UNIV h0 ANil NewMap" by (simp add: NewMap_def)
  from SetAll_spec [OF wf r _ d] obtain h' m' t' where
    "SetAll h0 NewMap kvs = Some (h', m')" "wf_heap h'" "repr UNIV h' t' m'"
    "cnt t' = cnt ANil + int (length kvs)"
    by auto
  then show "\<exists>h' m'. SetAll h0 NewMap kvs = Some (h', m') \<and> Size h' m' = int (length kvs)"
    using repr_Size [of h' UNIV t' m'] by auto
next
  assume wf: "wf_map h m" and l: "Lookup h m k1 = Some (v1, True)"
  from wf obtain t where t: "wf_heap h" "repr UNIV h t m" "tinv 0 t"
    by (auto simp: wf_map_def)
  from Lookup_spec [OF t(2,3), of k1] l have p: "hashKey k1 \<in> hashes t" by auto
  from Delete_spec [OF t, of k1] obtain h' m' t' where
    "Delete h m k1 = Some (Inr (h', m'))" "wf_heap h'" "repr UNIV h' t' m'"
    "cnt t' = cnt t - (if hashKey k1 \<in> hashes t then 1 else 0)"
    by blast
  then show "\<exists>h' m'. Delete h m k1 = Some (Inr (h', m')) \<and> Size h' m' = Size h m - 1"
    using p repr_Size [of h' UNIV t' m'] repr_Size [OF t(1,2)] by auto
next
  assume wf: "wf_map h m" and l: "Lookup h m k2 = Some (v2, False)"
  from wf obtain t where t: "wf_heap h" "repr UNIV h t m" "tinv 0 t"
    by (auto simp: wf_map_def)
  from Lookup_spec [OF t(2,3), of k2] l have p: "hashKey k2 \<notin> hashes t" by auto
  from Delete_spec [OF t, of k2] obtain h' m' t' where
    "Delete h m k2 = Some (Inr (h', m'))" "wf_heap h'" "repr UNIV h' t' m'"
    "cnt t' = cnt t - (if hashKey k2 \<in> hashes t then 1 else 0)"
    by blast
  then show "\<exists>h' m'. Delete h m k2 = Some (Inr (h', m')) \<and> Size h' m' = Size h m"
    using p repr_Size [of h' UNIV t' m'] repr_Size [OF t(1,2)] by auto
next
  assume wf: "wf_map h m" and l: "Lookup h m k3 = Some (v3, True)"
  from wf obtain t where t: "wf_heap h" "repr UNIV h t m" "tinv 0 t"
    by (auto simp: wf_map_def)
  from Lookup_spec [OF t(2,3), of k3] l have p: "hashKey k3 \<in> hashes t" by auto
  let ?t' = "set_t t (hashKey k3) (hashKey k3) k3 v"
  from Set_spec [OF t, of k3 v] obtain h' where
    "Set h m k3 v = Some (h', length h)" "wf_heap h'" "repr UNIV h' ?t' (length h)"
    by blast
  then show "\<exists>h' m'. Set h m k3 v = Some (h', m') \<and> Size h' m' = Size h m"
    using p Set_size(1) [OF t(3), of k3 v] repr_Size [of h' UNIV ?t' "length h"]
      repr_Size [OF t(1,2)] by auto
qed

theorem Size_accounting_witness:
  "wf_heap (init_heap :: nat heap) \<and>
   distinct (map (\<lambda>kv. hashKey (fst kv)) [(''a'', Some (1::nat)), (''b'', Some 2)]) \<and>
   (\<exists>h' m'. SetAll init_heap NewMap [(''a'', Some (1::nat)), (''b'', Some 2)] = Some (h', m') \<and>
      Size h' m' = int (length [(''a'', Some (1::nat)), (''b'', Some 2)])) \<and>
   wf_map heap2 2 \<and>
   Lookup heap2 2 ''a'' = Some (Some 1, True) \<and>
   (\<exists>h' m'. Delete heap2 2 ''a'' = Some (Inr (h', m')) \<and> Size h' m' = Size heap2 2 - 1) \<and>
   Lookup heap2 2 ''missing'' = Some (None, False) \<and>
   (\<exists>h' m'. Delete heap2 2 ''missing'' = Some (Inr (h', m')) \<and> Size h' m' = Size heap2 2) \<and>
   Lookup heap2 2 ''b'' = Some (Some 2, True) \<and>
   (\<exists>h' m'. Set heap2 2 ''b'' (Some 9) = Some (h', m') \<and> Size h' m' = Size heap2 2)"
proof -
  have d: "distinct (map (\<lambda>kv. hashKey (fst kv)) [(''a'', Some (1::nat)), (''b'', Some 2)])"
    by code_simp
  have l1: "Lookup heap2 2 ''a'' = Some (Some 1, True)" by code_simp
  have l2: "Lookup heap2 2 ''missing'' = Some (None, False)" by code_simp
  have l3: "Lookup heap2 2 ''b'' = Some (Some 2, True)" by code_simp
  note T = Size_accounting [where ?h0.0 = "init_heap :: nat heap"
      and kvs = "[(''a'', Some (1::nat)), (''b'', Some 2)]"
      and h = heap2 and m = 2 and ?k1.0 = "''a''" and ?v1.0 = "Some 1"
      and ?k2.0 = "''missing''" and ?v2.0 = None and ?k3.0 = "''b''" and ?v3.0 = "Some 2"
      and v = "Some 9"]
  show ?thesis
    apply (intro conjI)
             apply (rule wf_heap_init)
            apply (rule d)
           apply (rule T [THEN conjunct1, rule_format, OF wf_heap_init d])
          apply (rule wf_map_heap2)
         apply (rule l1)
        apply (rule T [THEN conjunct2, THEN conjunct1, rule_format, OF wf_map_heap2 l1])
       apply (rule l2)
      apply (rule T [THEN conjunct2, THEN conjunct2, THEN conjunct1, rule_format, OF wf_map_heap2 l2])
     apply (rule l3)
    apply (rule T [THEN conjunct2, THEN conjunct2, THEN conjunct2, rule_format, OF wf_map_heap2 l3])
    done
qed

text \<open>
  C5. In every heap and for every handle reachable from \<open>NewMap()\<close> by \<open>Set\<close> and \<open>Delete\<close>,
  the count of the sentinel is 0, and every other node reachable from the handle has
  eight children, a count of 1 plus the sum of the counts of its children, and count 1 if
  and only if all its children are the sentinel.
\<close>

theorem reachable_count_invariants:
  assumes "reachable h m"
  shows "count (h ! nilMap) = 0 \<and>
         (\<forall>a\<in>nodes h m.
            length (children (h ! a)) = childCount \<and>
            count (h ! a) = 1 + sum_list (map (\<lambda>c. count (h ! c)) (children (h ! a))) \<and>
            ((count (h ! a) = 1) = (\<forall>c\<in>set (children (h ! a)). c = nilMap)))"
proof
  have wc: "wf_counts h m" using assms reachable_wf_map wf_map_counts by blast
  then show "count (h ! nilMap) = 0" by (simp add: wf_counts_def wf_heap_def nilTree_def)
  show "\<forall>a\<in>nodes h m.
            length (children (h ! a)) = childCount \<and>
            count (h ! a) = 1 + sum_list (map (\<lambda>c. count (h ! c)) (children (h ! a))) \<and>
            ((count (h ! a) = 1) = (\<forall>c\<in>set (children (h ! a)). c = nilMap))"
  proof
    fix a assume a: "a \<in> nodes h m"
    note n = node_counts [OF nodes_counts [OF a wc] nodes_not_nil [OF a]]
    from n show "length (children (h ! a)) = childCount \<and>
            count (h ! a) = 1 + sum_list (map (\<lambda>c. count (h ! c)) (children (h ! a))) \<and>
            ((count (h ! a) = 1) = (\<forall>c\<in>set (children (h ! a)). c = nilMap))"
      by blast
  qed
qed

theorem reachable_count_invariants_witness:
  "reachable heap2 2 \<and> 2 \<in> nodes heap2 2 \<and> 3 \<in> nodes heap2 2 \<and>
   count (heap2 ! nilMap) = 0 \<and>
   length (children (heap2 ! 2)) = childCount \<and>
   count (heap2 ! 2) = 1 + sum_list (map (\<lambda>c. count (heap2 ! c)) (children (heap2 ! 2))) \<and>
   ((count (heap2 ! 2) = 1) = (\<forall>c\<in>set (children (heap2 ! 2)). c = nilMap)) \<and>
   ((count (heap2 ! 3) = 1) = (\<forall>c\<in>set (children (heap2 ! 3)). c = nilMap))"
proof -
  have n2: "2 \<in> nodes heap2 2" by (rule nodes.root) (simp add: nilMap_def)
  have n3: "3 \<in> nodes heap2 2"
    by (rule nodes.child [OF n2]) (simp_all add: heap2_nth nilMap_def)
  note T = reachable_count_invariants [OF reachable_heap2]
  note T2 = T [THEN conjunct2, THEN bspec, OF n2]
  note T3 = T [THEN conjunct2, THEN bspec, OF n3]
  show ?thesis
    apply (intro conjI)
           apply (rule reachable_heap2)
          apply (rule n2)
         apply (rule n3)
        apply (rule T [THEN conjunct1])
       apply (rule T2 [THEN conjunct1])
      apply (rule T2 [THEN conjunct2, THEN conjunct1])
     apply (rule T2 [THEN conjunct2, THEN conjunct2])
    apply (rule T3 [THEN conjunct2, THEN conjunct2])
    done
qed

text \<open>
  C6. For every well-formed map and any two keys \<open>k1\<close>, \<open>k2\<close> with equal hashes, the keys
  share one entry: after \<open>Set(k1, v1)\<close>, \<open>Lookup(k2)\<close> finds \<open>v1\<close>; a following
  \<open>Set(k2, v2)\<close> overwrites (the size stays) and \<open>Lookup\<close> of either key returns
  \<open>(v2, true)\<close>; and \<open>Delete\<close> of either key removes the entry for both.
\<close>

theorem colliding_keys_share_slot:
  assumes "wf_map h m" "hashKey k1 = hashKey k2"
  shows "\<exists>h1 m1 h2 m2.
           Set h m k1 v1 = Some (h1, m1) \<and> Lookup h1 m1 k2 = Some (v1, True) \<and>
           Set h1 m1 k2 v2 = Some (h2, m2) \<and> Size h2 m2 = Size h1 m1 \<and>
           Lookup h2 m2 k1 = Some (v2, True) \<and> Lookup h2 m2 k2 = Some (v2, True) \<and>
           (\<exists>h3 m3. Delete h2 m2 k1 = Some (Inr (h3, m3)) \<and>
              Lookup h3 m3 k1 = Some (None, False) \<and> Lookup h3 m3 k2 = Some (None, False)) \<and>
           (\<exists>h3 m3. Delete h2 m2 k2 = Some (Inr (h3, m3)) \<and>
              Lookup h3 m3 k1 = Some (None, False) \<and> Lookup h3 m3 k2 = Some (None, False))"
proof -
  have same: "Lookup h' m' k1 = Lookup h' m' k2" for h' :: "'a heap" and m'
    by (simp add: Lookup_def assms(2))
  from assms(1) obtain t where t: "wf_heap h" "repr UNIV h t m" "tinv 0 t"
    by (auto simp: wf_map_def)
  let ?t1 = "set_t t (hashKey k1) (hashKey k1) k1 v1"
  from Set_spec [OF t, of k1 v1] obtain h1 where
    s1: "Set h m k1 v1 = Some (h1, length h)" and wf1: "wf_heap h1"
    and r1: "repr UNIV h1 ?t1 (length h)" and i1: "tinv 0 ?t1"
    by blast
  have l1: "Lookup h1 (length h) k1 = Some (v1, True)"
    using lookup_refine [OF r1, of "hashKey k1" "hashKey k1"] lookup_set_same [OF t(3)]
    by (simp add: Lookup_def)
  have in1: "hashKey k2 \<in> hashes ?t1" using Set_size(2) [OF t(3), of k1 v1] assms(2) by simp
  let ?t2 = "set_t ?t1 (hashKey k2) (hashKey k2) k2 v2"
  from Set_spec [OF wf1 r1 i1, of k2 v2] obtain h2 where
    s2: "Set h1 (length h) k2 v2 = Some (h2, length h1)" and wf2: "wf_heap h2"
    and r2: "repr UNIV h2 ?t2 (length h1)" and i2: "tinv 0 ?t2"
    by blast
  have l2: "Lookup h2 (length h1) k2 = Some (v2, True)"
    using lookup_refine [OF r2, of "hashKey k2" "hashKey k2"] lookup_set_same [OF i1]
    by (simp add: Lookup_def)
  have sz: "Size h2 (length h1) = Size h1 (length h)"
    using Set_size(1) [OF i1, of k2 v2] in1 repr_Size [OF wf2 r2] repr_Size [OF wf1 r1] by simp
  have wm2: "wf_map h2 (length h1)" unfolding wf_map_def using wf2 r2 i2 by blast
  from Delete_removes_key [OF wm2, of k1] obtain h3 m3 where
    d1: "Delete h2 (length h1) k1 = Some (Inr (h3, m3))" "Lookup h3 m3 k1 = Some (None, False)"
    by blast
  from Delete_removes_key [OF wm2, of k2] obtain h4 m4 where
    d2: "Delete h2 (length h1) k2 = Some (Inr (h4, m4))" "Lookup h4 m4 k2 = Some (None, False)"
    by blast
  from s1 l1 s2 sz l2 d1 d2 same show ?thesis
    by (intro exI [of _ h1] exI [of _ "length h"] exI [of _ h2] exI [of _ "length h1"]) auto
qed

theorem colliding_keys_share_slot_witness:
  "wf_map heap2 2 \<and> hashKey collide1 = hashKey collide2 \<and> collide1 \<noteq> collide2 \<and>
   (\<exists>h1 m1 h2 m2.
      Set heap2 2 collide1 (Some 7) = Some (h1, m1) \<and> Lookup h1 m1 collide2 = Some (Some 7, True) \<and>
      Set h1 m1 collide2 (Some 8) = Some (h2, m2) \<and> Size h2 m2 = Size h1 m1 \<and>
      Lookup h2 m2 collide1 = Some (Some 8, True) \<and> Lookup h2 m2 collide2 = Some (Some 8, True) \<and>
      (\<exists>h3 m3. Delete h2 m2 collide1 = Some (Inr (h3, m3)) \<and>
         Lookup h3 m3 collide1 = Some (None, False) \<and> Lookup h3 m3 collide2 = Some (None, False)) \<and>
      (\<exists>h3 m3. Delete h2 m2 collide2 = Some (Inr (h3, m3)) \<and>
         Lookup h3 m3 collide1 = Some (None, False) \<and> Lookup h3 m3 collide2 = Some (None, False)))"
  by (intro conjI wf_map_heap2 collide_hash collide_neq
      colliding_keys_share_slot [OF wf_map_heap2 collide_hash])

text \<open>
  C7. For every well-formed map \<open>m\<close> and every key \<open>k\<close> that \<open>Lookup\<close> does not find,
  \<open>deleteLowLevel\<close> returns the handle it was given with \<open>changed = false\<close>, and
  \<open>Delete\<close> returns that handle in the heap it started from: nothing was allocated, so no
  node on the descent path was copied.
\<close>

theorem Delete_absent_same_handle:
  assumes "wf_map h m" "Lookup h m k = Some (v, False)"
  shows "deleteLowLevel h m (hashKey k) (hashKey k) = Some (Inr (h, m, False)) \<and>
         Delete h m k = Some (Inr (h, m))"
proof -
  from assms(1) obtain t where t: "wf_heap h" "repr UNIV h t m" "tinv 0 t"
    by (auto simp: wf_map_def)
  from Lookup_spec [OF t(2,3), of k] assms(2) have absent: "hashKey k \<notin> hashes t" by auto
  from Delete_spec [OF t, of k] absent show ?thesis by auto
qed

theorem Delete_absent_same_handle_witness:
  "wf_map heap2 2 \<and> Lookup heap2 2 ''missing'' = Some (None, False) \<and>
   deleteLowLevel heap2 2 (hashKey ''missing'') (hashKey ''missing'') = Some (Inr (heap2, 2, False)) \<and>
   Delete heap2 2 ''missing'' = Some (Inr (heap2, 2))"
proof -
  have l: "Lookup heap2 2 ''missing'' = Some (None, False)" by code_simp
  from Delete_absent_same_handle [OF wf_map_heap2 l] wf_map_heap2 l show ?thesis by blast
qed

text \<open>
  C8. For every well-formed map there is a sequence \<open>es\<close> of (key, value) pairs such that
  \<open>ForEach\<close> calls the callback once per element of \<open>es\<close>, in order, and does nothing
  else; the keys of \<open>es\<close> are pairwise distinct, so no entry is visited twice; every entry
  \<open>Lookup\<close> can find is in \<open>es\<close> (under the key stored for that hash), so none is skipped,
  and every element of \<open>es\<close> is found by \<open>Lookup\<close>; \<open>Keys\<close> returns the keys of \<open>es\<close>,
  without duplicates, and their number is \<open>Size()\<close>.
\<close>

theorem ForEach_Keys_complete:
  assumes "wf_map h m"
  shows "\<exists>es. (\<forall>f s. ForEach h m f s = Some (runCallbacks f es s)) \<and>
           Keys h m = Some (Inr (map fst es)) \<and>
           distinct (map fst es) \<and> int (length es) = Size h m \<and>
           (\<forall>k v. (k, v) \<in> set es \<longrightarrow> Lookup h m k = Some (v, True)) \<and>
           (\<forall>k v. Lookup h m k = Some (v, True) \<longrightarrow>
              (\<exists>k'. (k', v) \<in> set es \<and> hashKey k' = hashKey k))"
proof -
  from assms obtain t where t: "wf_heap h" "repr UNIV h t m" "tinv 0 t"
    by (auto simp: wf_map_def)
  let ?es = "entries_t t"
  have 1: "\<forall>f s. ForEach h m f s = Some (runCallbacks f ?es s)"
    using ForEach_refine [OF t(2)] by blast
  have 2: "Keys h m = Some (Inr (map fst ?es))"
    using Keys_refine [OF t(2,1) length_entries [OF t(3)]] .
  have 3: "distinct (map fst ?es)" using t(3) by (rule distinct_keys_entries)
  have 4: "int (length ?es) = Size h m"
    using length_entries [OF t(3)] repr_Size [OF t(1,2)] by simp
  have 5: "\<forall>k v. (k, v) \<in> set ?es \<longrightarrow> Lookup h m k = Some (v, True)"
    using Lookup_entry [OF t(2,3)] by blast
  have 6: "\<forall>k v. Lookup h m k = Some (v, True) \<longrightarrow>
              (\<exists>k'. (k', v) \<in> set ?es \<and> hashKey k' = hashKey k)"
    using Lookup_found_entry [OF t(2,3)] by blast
  from 1 2 3 4 5 6 show ?thesis by blast
qed

theorem ForEach_Keys_complete_witness:
  "wf_map heap2 2 \<and> Keys heap2 2 = Some (Inr [''a'', ''b'']) \<and> Size heap2 2 = 2 \<and>
   (\<exists>es. (\<forall>f s. ForEach heap2 2 (f :: string \<Rightarrow> nat any \<Rightarrow> nat \<Rightarrow> panic + nat) s
               = Some (runCallbacks f es s)) \<and>
           Keys heap2 2 = Some (Inr (map fst es)) \<and>
           distinct (map fst es) \<and> int (length es) = Size heap2 2 \<and>
           (\<forall>k v. (k, v) \<in> set es \<longrightarrow> Lookup heap2 2 k = Some (v, True)) \<and>
           (\<forall>k v. Lookup heap2 2 k = Some (v, True) \<longrightarrow>
              (\<exists>k'. (k', v) \<in> set es \<and> hashKey k' = hashKey k)))"
proof -
  have K: "Keys heap2 2 = Some (Inr [''a'', ''b''])" by code_simp
  have S: "Size heap2 2 = 2" by code_simp
  note T = ForEach_Keys_complete [OF wf_map_heap2, where ?'b = nat]
  show ?thesis
    apply (rule conjI)
     apply (rule wf_map_heap2)
    apply (rule conjI)
     apply (rule K)
    apply (rule conjI)
     apply (rule S)
    apply (rule T)
    done
qed

text \<open>
  C9. For every handle whose tree satisfies the count invariant (every well-formed map
  does, and so does each of its subtrees), \<open>Delete\<close> returns a map and never panics; a
  node that is not the sentinel and not a leaf has a child that is not the sentinel; and
  \<open>deleteLeftmost\<close> on a node that is not the sentinel returns, so its panic is never
  executed.
\<close>

theorem Delete_never_panics:
  assumes "wf_counts h m"
  shows "(\<exists>h' m'. Delete h m k = Some (Inr (h', m'))) \<and>
         (\<not> IsNil m \<longrightarrow> \<not> isLeaf h m \<longrightarrow> (\<exists>i<childCount. children (h ! m) ! i \<noteq> nilMap)) \<and>
         (\<not> IsNil m \<longrightarrow> (\<exists>h' deleted rest. deleteLeftmost h m = Some (Inr (h', deleted, rest))))"
proof (intro conjI impI)
  from assms obtain t where t: "wf_heap h" "repr UNIV h t m" "counted t"
    by (auto simp: wf_counts_def)
  have r: "repr (UNIV \<inter> {..<length h}) h t m" using t(2) by (rule repr_restrict)
  from counted_delete [OF t(3), of "hashKey k" "hashKey k"] obtain t' found where
    "delete_t t (hashKey k) (hashKey k) = Inr (t', found)" by blast
  with deleteLowLevel_refine [OF r t(1), of "hashKey k" "hashKey k"]
  obtain h' m' where "deleteLowLevel h m (hashKey k) (hashKey k) = Some (Inr (h', m', found))"
    by auto
  then show "\<exists>h' m'. Delete h m k = Some (Inr (h', m'))" by (simp add: Delete_def)
next
  assume nn: "\<not> IsNil m" and nl: "\<not> isLeaf h m"
  from assms obtain t where t: "wf_heap h" "repr UNIV h t m" "counted t"
    by (auto simp: wf_counts_def)
  from nn repr_nil_iff [OF t(2)] obtain c hs k v ts where n: "t = ANode c hs k v ts"
    by (cases t) (auto simp: IsNil_def)
  from t(2) n have c: "count (h ! m) = c" and len: "length ts = childCount"
    and cs: "list_all2 (repr UNIV h) ts (children (h ! m))" by auto
  from nl c have "c \<noteq> 1" by (simp add: isLeaf_def Size_def)
  with counted_leaf_iff [OF t(3) [unfolded n]] obtain j where
    j: "j < length ts" "ts ! j \<noteq> ANil" by (auto simp: in_set_conv_nth)
  from repr_nil_iff [OF reprs_nth [OF cs j(1)]] j(2) have "children (h ! m) ! j \<noteq> nilMap"
    by simp
  with j(1) len show "\<exists>i<childCount. children (h ! m) ! i \<noteq> nilMap" by auto
next
  assume nn: "\<not> IsNil m"
  from assms obtain t where t: "wf_heap h" "repr UNIV h t m" "counted t"
    by (auto simp: wf_counts_def)
  have r: "repr (UNIV \<inter> {..<length h}) h t m" using t(2) by (rule repr_restrict)
  from nn repr_nil_iff [OF t(2)] have "t \<noteq> ANil" by (simp add: IsNil_def)
  from counted_deleteLeftmost [OF t(3) this] obtain d t' where
    "deleteLeftmost_t t = Inr (d, t')" by blast
  with deleteLeftmost_refine [OF r t(1)]
  show "\<exists>h' deleted rest. deleteLeftmost h m = Some (Inr (h', deleted, rest))" by auto
qed

theorem Delete_never_panics_witness:
  "wf_counts heap2 2 \<and> \<not> IsNil 2 \<and> \<not> isLeaf heap2 2 \<and>
   (\<exists>h' m'. Delete heap2 2 ''a'' = Some (Inr (h', m'))) \<and>
   (\<exists>i<childCount. children (heap2 ! 2) ! i \<noteq> nilMap) \<and>
   (\<exists>h' deleted rest. deleteLeftmost heap2 2 = Some (Inr (h', deleted, rest)))"
proof -
  have wc: "wf_counts heap2 2" using wf_map_heap2 by (rule wf_map_counts)
  have n: "\<not> IsNil 2" by (simp add: IsNil_def nilMap_def)
  have l: "\<not> isLeaf heap2 2" by (simp add: isLeaf_def Size_def heap2_nth)
  note T = Delete_never_panics [OF wc, of "''a''"]
  show ?thesis
    apply (intro conjI)
         apply (rule wc)
        apply (rule n)
       apply (rule l)
      apply (rule T [THEN conjunct1])
     apply (rule T [THEN conjunct2, THEN conjunct1, rule_format, OF n l])
    apply (rule T [THEN conjunct2, THEN conjunct2, rule_format, OF n])
    done
qed

text \<open>
  C10. Deleting the last entry returns the sentinel itself: \<open>NewMap().Set(k, v).Delete(k)\<close>
  is the handle \<open>NewMap()\<close>; a \<open>Delete\<close> on a well-formed map whose result has size 0 (or no
  keys) returns a handle with \<open>IsNil\<close>; and deleting, one after the other, all the keys
  that \<open>Keys\<close> lists returns the handle \<open>NewMap()\<close>.
\<close>

theorem emptied_map_is_nilMap:
  "(wf_heap h0 \<longrightarrow>
      (\<exists>h1 m1 h2. Set h0 NewMap k v = Some (h1, m1) \<and> Delete h1 m1 k = Some (Inr (h2, NewMap)))) \<and>
   (wf_map h m \<longrightarrow> Delete h m k' = Some (Inr (h', m')) \<longrightarrow>
      Size h' m' = 0 \<or> Keys h' m' = Some (Inr []) \<longrightarrow> IsNil m') \<and>
   (wf_map h m \<longrightarrow> Keys h m = Some (Inr ks) \<longrightarrow>
      (\<exists>h''. DeleteAll h m ks = Some (Inr (h'', NewMap))))"
proof (intro conjI impI)
  assume wf: "wf_heap h0"
  have r: "repr UNIV h0 ANil NewMap" by (simp add: NewMap_def)
  let ?t1 = "set_t ANil (hashKey k) (hashKey k) k v"
  from Set_spec [OF wf r, of k v] obtain h1 where
    s: "Set h0 NewMap k v = Some (h1, length h0)" and wf1: "wf_heap h1"
    and r1: "repr UNIV h1 ?t1 (length h0)" and i1: "tinv 0 ?t1"
    by auto
  from Delete_spec [OF wf1 r1 i1, of k] obtain h2 m2 t2 where
    d: "Delete h1 (length h0) k = Some (Inr (h2, m2))" "repr UNIV h2 t2 m2"
      "hashes t2 = hashes ?t1 - {hashKey k}"
    by blast
  have "hashes t2 = {}" using d(3) by (simp add: childCount_def)
  then have "t2 = ANil" by (rule hashes_empty)
  with d(2) have "m2 = NewMap" by (simp add: NewMap_def)
  with s d(1) show "\<exists>h1 m1 h2. Set h0 NewMap k v = Some (h1, m1) \<and>
      Delete h1 m1 k = Some (Inr (h2, NewMap))" by blast
next
  assume wf: "wf_map h m" and del: "Delete h m k' = Some (Inr (h', m'))"
    and empty: "Size h' m' = 0 \<or> Keys h' m' = Some (Inr [])"
  from wf obtain t where t: "wf_heap h" "repr UNIV h t m" "tinv 0 t"
    by (auto simp: wf_map_def)
  from Delete_spec [OF t, of k'] del obtain t' where
    d: "wf_heap h'" "repr UNIV h' t' m'" "tinv 0 t'"
    by auto
  have "cnt t' = 0"
    using empty
  proof
    assume "Size h' m' = 0"
    then show ?thesis using repr_Size [OF d(1,2)] by simp
  next
    assume "Keys h' m' = Some (Inr [])"
    then have "entries_t t' = []"
      using Keys_refine [OF d(2,1) length_entries [OF d(3)]] by simp
    then show ?thesis using length_entries [OF d(3)] by simp
  qed
  then have "t' = ANil" using d(3) by (rule cnt_zero [rotated])
  with d(2) show "IsNil m'" by (simp add: IsNil_def)
next
  assume wf: "wf_map h m" and keys: "Keys h m = Some (Inr ks)"
  from wf obtain t where t: "wf_heap h" "repr UNIV h t m" "tinv 0 t"
    by (auto simp: wf_map_def)
  have "ks = map fst (entries_t t)"
    using Keys_refine [OF t(2,1) length_entries [OF t(3)]] keys by simp
  then have "hashes t \<subseteq> hashKey ` set ks"
    using hashes_entries [OF t(3)] by auto
  from DeleteAll_spec [OF t this] show "\<exists>h''. DeleteAll h m ks = Some (Inr (h'', NewMap))"
    by (simp add: NewMap_def)
qed

theorem emptied_map_is_nilMap_witness:
  "wf_heap (init_heap :: nat heap) \<and>
   (\<exists>h1 m1 h2. Set init_heap NewMap ''a'' (Some (1::nat)) = Some (h1, m1) \<and>
      Delete h1 m1 ''a'' = Some (Inr (h2, NewMap))) \<and>
   wf_map heap1 1 \<and> Delete heap1 1 ''a'' = Some (Inr (heap1, 0)) \<and> Size heap1 0 = 0 \<and>
   IsNil 0 \<and>
   wf_map heap2 2 \<and> Keys heap2 2 = Some (Inr [''a'', ''b'']) \<and>
   (\<exists>h''. DeleteAll heap2 2 [''a'', ''b''] = Some (Inr (h'', NewMap)))"
proof -
  have K: "Keys heap2 2 = Some (Inr [''a'', ''b''])" by code_simp
  have S: "Size heap1 0 = 0" by (simp add: Size_def heap1_nth nilTree_def)
  have E: "Size heap1 0 = 0 \<or> Keys heap1 0 = Some (Inr [])" using S by simp
  note T1 = emptied_map_is_nilMap [where ?h0.0 = "init_heap :: nat heap" and k = "''a''"
      and v = "Some 1" and h = heap1 and m = 1 and k' = "''a''" and h' = heap1 and m' = 0]
  note T2 = emptied_map_is_nilMap [where ?h0.0 = "init_heap :: nat heap" and h = heap2 and m = 2
      and ks = "[''a'', ''b'']"]
  show ?thesis
    apply (intro conjI)
            apply (rule wf_heap_init)
           apply (rule T1 [THEN conjunct1, rule_format, OF wf_heap_init])
          apply (rule wf_map_heap1)
         apply (rule Delete_heap1)
        apply (rule S)
       apply (rule T1 [THEN conjunct2, THEN conjunct1, rule_format, OF wf_map_heap1 Delete_heap1 E])
      apply (rule wf_map_heap2)
     apply (rule K)
    apply (rule T2 [THEN conjunct2, THEN conjunct2, rule_format, OF wf_map_heap2 K])
    done
qed

end
